theory Spec2Isabelle
  imports Main "HOL-Library.Word"
begin

section \<open>Data model of \<open>lib/jxl/dec_file.cc\<close>\<close>

text \<open>
  The development embeds the two stateful pieces of \<open>DecodeFile\<close>
  (\<open>lib/jxl/dec_file.cc\<close>): the redistribution of the decoded ICC profile over the
  APP markers of the JPEG reconstruction data (lines 125-145) and the frame loop
  (lines 164-180).  Mutation is explicit state passing; every \<open>JXL_FAILURE\<close> and
  every access outside a buffer is a value of the result.
\<close>

subsection \<open>Sizes\<close>

text \<open>
  \<open>size_t\<close> is taken as an unsigned 64-bit integer, as is \<open>uint64_t\<close>.  Sizes are
  natural numbers and the wrap-around of \<open>-\<close>, \<open>+\<close> and \<open>*\<close> is written out.
  \<open>PTRDIFF_MAX\<close> is the largest value of the signed type of the same width.
\<close>

type_synonym byte = "8 word"

definition SIZE_RANGE :: nat where
  "SIZE_RANGE = 2 ^ 64"

definition PTRDIFF_MAX :: nat where
  "PTRDIFF_MAX = 2 ^ 63 - 1"

definition size_sub :: "nat \<Rightarrow> nat \<Rightarrow> nat" where
  "size_sub a b = (a + SIZE_RANGE - b mod SIZE_RANGE) mod SIZE_RANGE"

definition size_add :: "nat \<Rightarrow> nat \<Rightarrow> nat" where
  "size_add a b = (a + b) mod SIZE_RANGE"

definition size_mul :: "nat \<Rightarrow> nat \<Rightarrow> nat" where
  "size_mul a b = (a * b) mod SIZE_RANGE"

subsection \<open>Failures\<close>

text \<open>
  \<open>Status\<close> of the source is a success flag; the failures are told apart by their
  message.  \<open>IccUnderrun\<close> is \<open>"ICC length is less than APP markers"\<close> (line 134),
  \<open>IccOverrun\<close> is \<open>"ICC length is more than APP markers"\<close> (line 143),
  \<open>FrameDecodeFailure\<close> is a failed \<open>DecodeFrame\<close> passed on by
  \<open>JXL_RETURN_IF_ERROR\<close> (line 172).  \<open>OutOfBounds\<close> is not a return of the source: it
  stands for an access outside a buffer (an index past the end of a vector, a
  \<open>memcpy\<close> that leaves its source or its destination), where the C++ program has
  no defined behaviour.
\<close>

datatype error = IccUnderrun | IccOverrun | FrameDecodeFailure | OutOfBounds

datatype Status = OK | Failed error

subsection \<open>JPEG reconstruction data\<close>

text \<open>
  Modelled from the spec: the enumeration \<open>jpeg::AppMarkerType\<close> is declared outside
  the source at hand, which names only \<open>kICC\<close>; the spec says each byte range is
  "tagged with a marker kind".  Every other kind is \<open>kOtherMarker\<close>.
\<close>

datatype AppMarkerType = kICC | kOtherMarker nat

text \<open>The two parallel vectors of \<open>jpeg::JPEGData\<close> that \<open>DecodeFile\<close> reads and writes.\<close>

record JPEGData =
  app_data :: "byte list list"
  app_marker_type :: "AppMarkerType list"

subsection \<open>\<open>memcpy\<close>\<close>

text \<open>
  \<open>memcpy(&dst[doff], src.data() + soff, n)\<close>, the call of line 139: \<open>n\<close> bytes of
  \<open>src\<close> from \<open>soff\<close> replace the \<open>n\<close> bytes of \<open>dst\<close> from \<open>doff\<close>.  The destination is
  the address of the element \<open>dst[doff]\<close> of a \<open>std::vector\<close>, and \<open>operator[]\<close> is
  defined only for an index below \<open>size()\<close>, whatever the number of bytes copied.
  The copy itself is defined only when both byte ranges lie inside their buffers.
\<close>

definition memcpy :: "byte list \<Rightarrow> nat \<Rightarrow> byte list \<Rightarrow> nat \<Rightarrow> nat \<Rightarrow> byte list option" where
  "memcpy dst doff src soff n =
     (if doff < length dst \<and> doff + n \<le> length dst \<and> soff + n \<le> length src
      then Some (take doff dst @ take n (drop soff src) @ drop (doff + n) dst)
      else None)"

section \<open>Redistribution of the ICC profile (lines 125-145)\<close>

text \<open>
  The loop of lines 128-141, from index \<open>i\<close> with running offset \<open>icc_pos\<close>.  The
  result is the status, the reconstruction data as the loop left it, and the
  offset.  A failure returns at once, before the \<open>memcpy\<close> of the range at hand.
\<close>

function icc_loop :: "byte list \<Rightarrow> JPEGData \<Rightarrow> nat \<Rightarrow> nat \<Rightarrow> Status \<times> JPEGData \<times> nat" where
  "icc_loop icc jd i icc_pos =
     (if i < length (app_data jd) then
        (if length (app_marker_type jd) \<le> i then (Failed OutOfBounds, jd, icc_pos)
         else if app_marker_type jd ! i \<noteq> kICC then icc_loop icc jd (i + 1) icc_pos
         else
           (let len = size_sub (length (app_data jd ! i)) 17 in
            if size_add icc_pos len > length icc then (Failed IccUnderrun, jd, icc_pos)
            else
              (case memcpy (app_data jd ! i) 17 icc icc_pos len of
                 None \<Rightarrow> (Failed OutOfBounds, jd, icc_pos)
               | Some d \<Rightarrow>
                   icc_loop icc (jd\<lparr>app_data := (app_data jd)[i := d]\<rparr>) (i + 1)
                     (size_add icc_pos len))))
      else (OK, jd, icc_pos))"
  by pat_completeness auto
termination
  by (relation "measure (\<lambda>(icc, jd, i, icc_pos). length (app_data jd) - i)") auto

text \<open>
  Lines 125-145, \<open>// Set ICC profile in jpeg_data\<close>.  \<open>icc\<close> is the profile held by the
  colour encoding (line 126), \<open>jpeg\<close> the local \<open>jpeg_data\<close>, unset unless
  \<open>dparams.keep_dct\<close>.  When it is set, the loop runs from index 0 and offset 0 and
  line 142 checks the final offset.  On a failure the state is the one at the
  \<open>return\<close>; the source then destroys \<open>jpeg_data\<close>.
\<close>

definition set_icc_in_jpeg_data :: "byte list \<Rightarrow> JPEGData option \<Rightarrow> Status \<times> JPEGData option" where
  "set_icc_in_jpeg_data icc jpeg =
     (case jpeg of
        None \<Rightarrow> (OK, None)
      | Some jd \<Rightarrow>
          (case icc_loop icc jd 0 0 of
             (Failed e, jd', icc_pos) \<Rightarrow> (Failed e, Some jd')
           | (OK, jd', icc_pos) \<Rightarrow>
               if icc_pos \<noteq> length icc \<and> icc_pos \<noteq> 0 then (Failed IccOverrun, Some jd')
               else (OK, Some jd')))"

subsection \<open>What the redistribution is to achieve\<close>

text \<open>
  The number of profile bytes range \<open>k\<close> takes: its size less the 17 bytes of header
  when it is tagged \<open>kICC\<close>, nothing otherwise.
\<close>

definition slice_len :: "JPEGData \<Rightarrow> nat \<Rightarrow> nat" where
  "slice_len jd k =
     (if k < length (app_marker_type jd) \<and> app_marker_type jd ! k = kICC
      then length (app_data jd ! k) - 17 else 0)"

text \<open>The running offset at range \<open>k\<close>: the sum of the slice lengths of the ranges before it.\<close>

fun icc_offset :: "JPEGData \<Rightarrow> nat \<Rightarrow> nat" where
  "icc_offset jd 0 = 0"
| "icc_offset jd (Suc k) = icc_offset jd k + slice_len jd k"

text \<open>
  Range \<open>k\<close> of \<open>jd\<close> after the redistribution is \<open>d'\<close>: an ICC range keeps its 17
  bytes of header, followed by the slice of the profile that starts at the running
  offset and fills the rest of the range; the slice lies inside the profile.  A range
  with another tag is unchanged.
\<close>

definition redistributed :: "byte list \<Rightarrow> JPEGData \<Rightarrow> nat \<Rightarrow> byte list \<Rightarrow> bool" where
  "redistributed icc jd k d' \<longleftrightarrow>
     k < length (app_marker_type jd) \<and>
     (if app_marker_type jd ! k = kICC
      then 17 \<le> length (app_data jd ! k) \<and>
           icc_offset jd k + slice_len jd k \<le> length icc \<and>
           d' = take 17 (app_data jd ! k) @ take (slice_len jd k) (drop (icc_offset jd k) icc)
      else d' = app_data jd ! k)"

text \<open>The bytes that follow the headers of the ICC ranges, range after range.\<close>

definition icc_payload :: "JPEGData \<Rightarrow> byte list" where
  "icc_payload jd =
     concat (map (\<lambda>k. if k < length (app_marker_type jd) \<and> app_marker_type jd ! k = kICC
                        then drop 17 (app_data jd ! k) else [])
               [0..<length (app_data jd)])"

text \<open>
  Range \<open>k\<close> is tagged \<open>kICC\<close> and its slice would end past the end of the profile: it
  requires more profile bytes than remain after the slices of the ranges before it.
\<close>

definition underrun_at :: "byte list \<Rightarrow> JPEGData \<Rightarrow> nat \<Rightarrow> bool" where
  "underrun_at icc jd k \<longleftrightarrow>
     k < length (app_data jd) \<and> app_marker_type jd ! k = kICC \<and>
     length icc < icc_offset jd k + slice_len jd k"

definition underrun :: "byte list \<Rightarrow> JPEGData \<Rightarrow> bool" where
  "underrun icc jd \<longleftrightarrow> list_ex (underrun_at icc jd) [0..<length (app_data jd)]"

text \<open>The first range at which the profile runs short.\<close>

definition first_underrun :: "byte list \<Rightarrow> JPEGData \<Rightarrow> nat \<Rightarrow> bool" where
  "first_underrun icc jd k \<longleftrightarrow>
     underrun_at icc jd k \<and> \<not> list_ex (underrun_at icc jd) [0..<k]"

text \<open>The running offset after all the ranges: the sum of all the slice lengths.\<close>

definition final_offset :: "JPEGData \<Rightarrow> nat" where
  "final_offset jd = icc_offset jd (length (app_data jd))"

text \<open>
  The loop, entered at range \<open>i\<close>, has stopped with result \<open>r\<close> at range \<open>k\<close>: the first
  range from \<open>i\<close> on at which the profile runs short; the offset is the one reached
  at \<open>k\<close>, and the ranges from \<open>k\<close> on are as they were.
\<close>

definition stops_at :: "byte list \<Rightarrow> JPEGData \<Rightarrow> nat \<Rightarrow> Status \<times> JPEGData \<times> nat \<Rightarrow> nat \<Rightarrow> bool" where
  "stops_at icc jd i r k \<longleftrightarrow>
     i \<le> k \<and> underrun_at icc jd k \<and> (\<forall>l. i \<le> l \<and> l < k \<longrightarrow> \<not> underrun_at icc jd l) \<and>
     snd (snd r) = icc_offset jd k \<and>
     (\<forall>l. k \<le> l \<longrightarrow> app_data (fst (snd r)) ! l = app_data jd ! l)"

subsection \<open>Well-formed inputs\<close>

text \<open>
  A buffer of bytes (a \<open>std::vector\<close>, the \<open>PaddedBytes\<close> of the profile) holds at
  most \<open>PTRDIFF_MAX\<close> bytes.
\<close>

definition vector_sizes_ok :: "byte list \<Rightarrow> JPEGData \<Rightarrow> bool" where
  "vector_sizes_ok icc jd \<longleftrightarrow>
     length icc \<le> PTRDIFF_MAX \<and>
     list_all (\<lambda>d. length d \<le> PTRDIFF_MAX) (app_data jd)"

text \<open>
  A legacy payload whose ICC ranges hold payload: one tag for each byte range, and
  each range tagged \<open>kICC\<close> is longer than its header of 17 bytes, so that
  \<open>size() - 17\<close> does not wrap around and \<open>app_data[i][17]\<close> is an element of the range.
  \<open>DecodeFile\<close> checks neither.
\<close>

definition icc_markers_hold_payload :: "JPEGData \<Rightarrow> bool" where
  "icc_markers_hold_payload jd \<longleftrightarrow>
     length (app_marker_type jd) = length (app_data jd) \<and>
     list_all (\<lambda>(d, t). t = kICC \<longrightarrow> 17 < length d) (zip (app_data jd) (app_marker_type jd))"

section \<open>The frame loop (lines 164-180)\<close>

subsection \<open>Frames and the decoder state\<close>

text \<open>
  Modelled from the spec: the enumeration \<open>FrameType\<close> is declared outside the source
  at hand, which names \<open>kRegularFrame\<close> and \<open>kSkipProgressive\<close>; the spec gives the frame
  type as "regular / progressive-skip / other non-displayed kinds".  Every other
  kind is \<open>kOtherFrameType\<close>.
\<close>

datatype FrameType = kRegularFrame | kSkipProgressive | kOtherFrameType nat

text \<open>The two fields of \<open>dec_state.shared->frame_header\<close> that the loop reads.\<close>

record FrameHeader =
  frame_type :: FrameType
  is_last :: bool

text \<open>
  What \<open>DecodeFrame\<close> reads and writes besides the frame: the decoder state
  \<open>dec_state\<close>, of which the loop reads \<open>shared->frame_header\<close>, and the rest (the
  remaining decoder state and the position of the bit reader), which the loop
  only hands on.
\<close>

record 'c PassesDecoderState =
  frame_header :: FrameHeader
  rest :: 'c

text \<open>
  Modelled from the spec: \<open>ImageBundle\<close> is declared outside the source at hand.  A
  frame is "pixel buffer, ..., optional legacy payload"; the loop moves \<open>jpeg_data\<close>
  into it and reads \<open>xsize()\<close> and \<open>ysize()\<close>.  A bundle made by
  \<open>emplace_back(&io->metadata.m)\<close> has no pixels yet.
\<close>

record 'px ImageBundle =
  jpeg_data :: "JPEGData option"
  xsize :: nat
  ysize :: nat
  pixels :: "'px option"

definition new_ImageBundle :: "'px ImageBundle" where
  "new_ImageBundle = \<lparr>jpeg_data = None, xsize = 0, ysize = 0, pixels = None\<rparr>"

text \<open>
  An entry of \<open>io->frames\<close>.  \<open>image_bundle\<close> is the \<open>ImageBundle\<close> of the source.
  \<open>decoded_as\<close> is a ghost field: the source does not store the type of a frame
  in its bundle, so the field keeps, for stating what kind of frame an entry holds,
  the frame header that \<open>DecodeFrame\<close> left in \<open>dec_state\<close> when it last wrote the
  entry with success; it is \<open>None\<close> for an entry no decode has completed on.  No
  function below reads it to decide anything (lemma \<open>DecodeFrames_ghost\<close>).
\<close>

record 'px Frame =
  image_bundle :: "'px ImageBundle"
  decoded_as :: "FrameHeader option"

text \<open>The two fields of \<open>CodecInOut\<close> that the loop writes.\<close>

record 'px CodecInOut =
  frames :: "'px Frame list"
  dec_pixels :: nat

text \<open>
  The collaborator \<open>DecodeFrame\<close>, which is outside the source at hand: from the
  decoder state and the bundle it is to decode into, its status (\<open>True\<close> for
  success), the decoder state and the bundle as it leaves them.
\<close>

type_synonym ('c, 'px) frame_decoder =
  "'c PassesDecoderState \<Rightarrow> 'px ImageBundle \<Rightarrow> bool \<times> 'c PassesDecoderState \<times> 'px ImageBundle"

text \<open>
  The call of lines 172-174: \<open>DecodeFrame\<close> on \<open>&io->frames.back()\<close>.  The last
  entry of the list is overwritten with what the collaborator leaves; the list is
  never empty at the call, since line 166 has appended an entry.
\<close>

definition DecodeFrame ::
  "('c, 'px) frame_decoder \<Rightarrow> 'c PassesDecoderState \<Rightarrow> 'px CodecInOut
     \<Rightarrow> (bool \<times> 'c PassesDecoderState \<times> 'px CodecInOut) option" where
  "DecodeFrame decode dec_state io =
     (if frames io = [] then None
      else
        (case decode dec_state (image_bundle (last (frames io))) of
           (ok, dec_state', b) \<Rightarrow>
             Some (ok, dec_state',
               io\<lparr>frames := butlast (frames io) @
                 [\<lparr>image_bundle = b,
                   decoded_as = (if ok then Some (frame_header dec_state')
                                 else decoded_as (last (frames io)))\<rparr>]\<rparr>)))"

subsection \<open>The loops\<close>

text \<open>
  Both loops may run for ever, so they take fuel, a bound on the number of
  iterations of each loop: the inner loop spends one unit for each decode, the
  outer loop one for each entry it appends.  \<open>None\<close> is a run that has not returned
  within the fuel.

  The inner loop, lines 171-178: decode into the last entry until the frame type
  is \<open>kRegularFrame\<close> or \<open>kSkipProgressive\<close>; a failed decode returns at once
  (\<open>JXL_RETURN_IF_ERROR\<close>).
\<close>

fun skip_undisplayed ::
  "nat \<Rightarrow> ('c, 'px) frame_decoder \<Rightarrow> 'c PassesDecoderState \<Rightarrow> 'px CodecInOut
     \<Rightarrow> (Status \<times> 'c PassesDecoderState \<times> 'px CodecInOut) option" where
  "skip_undisplayed 0 decode dec_state io = None"
| "skip_undisplayed (Suc fuel) decode dec_state io =
     (case DecodeFrame decode dec_state io of
        None \<Rightarrow> Some (Failed OutOfBounds, dec_state, io)
      | Some (False, dec_state', io') \<Rightarrow> Some (Failed FrameDecodeFailure, dec_state', io')
      | Some (True, dec_state', io') \<Rightarrow>
          if frame_type (frame_header dec_state') \<noteq> kRegularFrame \<and>
             frame_type (frame_header dec_state') \<noteq> kSkipProgressive
          then skip_undisplayed fuel decode dec_state' io'
          else Some (OK, dec_state', io'))"

text \<open>
  The outer loop, lines 165-180.  \<open>jpeg\<close> is the local \<open>jpeg_data\<close>: line 168 moves
  it into the new entry, which leaves it unset for the later iterations.
\<close>

fun frame_loop ::
  "nat \<Rightarrow> ('c, 'px) frame_decoder \<Rightarrow> 'c PassesDecoderState \<Rightarrow> JPEGData option
     \<Rightarrow> 'px CodecInOut \<Rightarrow> (Status \<times> 'px CodecInOut) option" where
  "frame_loop 0 decode dec_state jpeg io = None"
| "frame_loop (Suc fuel) decode dec_state jpeg io =
     (let io1 = io\<lparr>frames := frames io @ [\<lparr>image_bundle = new_ImageBundle, decoded_as = None\<rparr>]\<rparr>;
          io2 = (case jpeg of
                   None \<Rightarrow> io1
                 | Some jd \<Rightarrow>
                     io1\<lparr>frames := butlast (frames io1) @
                       [(last (frames io1))\<lparr>image_bundle :=
                          (image_bundle (last (frames io1)))\<lparr>jpeg_data := Some jd\<rparr>\<rparr>]\<rparr>)
      in
        (case skip_undisplayed (Suc fuel) decode dec_state io2 of
           None \<Rightarrow> None
         | Some (Failed e, dec_state', io3) \<Rightarrow> Some (Failed e, io3)
         | Some (OK, dec_state', io3) \<Rightarrow>
             (let io4 = io3\<lparr>dec_pixels :=
                    size_add (dec_pixels io3)
                      (size_mul (xsize (image_bundle (last (frames io3))))
                                (ysize (image_bundle (last (frames io3)))))\<rparr>
              in if \<not> is_last (frame_header dec_state')
                 then frame_loop fuel decode dec_state' None io4
                 else Some (OK, io4))))"

text \<open>Lines 164-180: \<open>io->frames.clear()\<close>, then the loop.\<close>

definition DecodeFrames ::
  "nat \<Rightarrow> ('c, 'px) frame_decoder \<Rightarrow> 'c PassesDecoderState \<Rightarrow> JPEGData option
     \<Rightarrow> 'px CodecInOut \<Rightarrow> (Status \<times> 'px CodecInOut) option" where
  "DecodeFrames fuel decode dec_state jpeg io =
     frame_loop fuel decode dec_state jpeg (io\<lparr>frames := []\<rparr>)"

text \<open>
  The entry that lines 166-169 append: a new bundle, holding the reconstruction
  data when \<open>jpeg_data\<close> is set.
\<close>

definition appended_entry :: "JPEGData option \<Rightarrow> 'px Frame" where
  "appended_entry jpeg =
     (case jpeg of
        None \<Rightarrow> \<lparr>image_bundle = new_ImageBundle, decoded_as = None\<rparr>
      | Some jd \<Rightarrow> \<lparr>image_bundle = new_ImageBundle\<lparr>jpeg_data := Some jd\<rparr>, decoded_as = None\<rparr>)"

subsection \<open>Displayed frames\<close>

text \<open>
  An entry is of a displayed type when the decode that last wrote it left a frame
  header of type \<open>kRegularFrame\<close> or \<open>kSkipProgressive\<close>.
\<close>

definition displayed :: "'px Frame \<Rightarrow> bool" where
  "displayed f =
     (case decoded_as f of
        None \<Rightarrow> False
      | Some h \<Rightarrow> frame_type h = kRegularFrame \<or> frame_type h = kSkipProgressive)"

subsection \<open>Agreement up to the ghost field\<close>

text \<open>
  Two states of \<open>CodecInOut\<close> that agree on what the source holds: the bundles of the
  frame list and the pixel count.  Two results of a loop agree when they have the
  same status (and decoder state) and such states.
\<close>

definition same_bundles :: "'px CodecInOut \<Rightarrow> 'px CodecInOut \<Rightarrow> bool" where
  "same_bundles a b \<longleftrightarrow>
     map image_bundle (frames a) = map image_bundle (frames b) \<and> dec_pixels a = dec_pixels b"

definition same_run ::
  "(Status \<times> 'c PassesDecoderState \<times> 'px CodecInOut) option
     \<Rightarrow> (Status \<times> 'c PassesDecoderState \<times> 'px CodecInOut) option \<Rightarrow> bool" where
  "same_run x y =
     (case (x, y) of
        (None, None) \<Rightarrow> True
      | (Some (st, ds, a), Some (st', ds', b)) \<Rightarrow> st = st' \<and> ds = ds' \<and> same_bundles a b
      | _ \<Rightarrow> False)"

definition same_result ::
  "(Status \<times> 'px CodecInOut) option \<Rightarrow> (Status \<times> 'px CodecInOut) option \<Rightarrow> bool" where
  "same_result x y =
     (case (x, y) of
        (None, None) \<Rightarrow> True
      | (Some (st, a), Some (st', b)) \<Rightarrow> st = st' \<and> same_bundles a b
      | _ \<Rightarrow> False)"

section \<open>Example inputs\<close>

text \<open>A header of 17 bytes for the ICC ranges of the examples.\<close>

definition hdr17 :: "byte list" where
  "hdr17 = [0, 0, 0, 0, 0, 0, 0, 0, 0, 0, 0, 0, 0, 0, 0, 0, 0]"

text \<open>
  A frame decoder for the examples.  The rest of the decoder state is the list of
  the frame headers still to come; a decode takes the first of them, fails when
  none is left, and writes a 1 x 1 image whose pixel is the number of headers left.
\<close>

definition scripted_decoder :: "(FrameHeader list, nat) frame_decoder" where
  "scripted_decoder dec_state b =
     (case rest dec_state of
        [] \<Rightarrow> (False, dec_state, b)
      | h # hs \<Rightarrow>
          (True, \<lparr>frame_header = h, rest = hs\<rparr>,
           b\<lparr>xsize := 1, ysize := 1, pixels := Some (length hs)\<rparr>))"

definition h_ref :: FrameHeader where
  "h_ref = \<lparr>frame_type = kOtherFrameType 2, is_last = False\<rparr>"

definition h_reg :: FrameHeader where
  "h_reg = \<lparr>frame_type = kRegularFrame, is_last = False\<rparr>"

definition h_dc :: FrameHeader where
  "h_dc = \<lparr>frame_type = kOtherFrameType 1, is_last = False\<rparr>"

definition h_skip :: FrameHeader where
  "h_skip = \<lparr>frame_type = kSkipProgressive, is_last = True\<rparr>"

text \<open>
  A stream of four frames: a frame that is not displayed, a regular frame, another
  frame that is not displayed, and a last frame of type \<open>kSkipProgressive\<close>.
\<close>

definition stream4 :: "FrameHeader list PassesDecoderState" where
  "stream4 = \<lparr>frame_header = h_reg, rest = [h_ref, h_reg, h_dc, h_skip]\<rparr>"

text \<open>A stream that ends after a frame that is not displayed.\<close>

definition stream1 :: "FrameHeader list PassesDecoderState" where
  "stream1 = \<lparr>frame_header = h_reg, rest = [h_ref]\<rparr>"

definition decoded :: "nat \<Rightarrow> FrameHeader \<Rightarrow> nat Frame" where
  "decoded p h =
     \<lparr>image_bundle = \<lparr>jpeg_data = None, xsize = 1, ysize = 1, pixels = Some p\<rparr>,
      decoded_as = Some h\<rparr>"

definition one_new_frame :: "nat CodecInOut" where
  "one_new_frame = \<lparr>frames = [appended_entry None], dec_pixels = 0\<rparr>"

section \<open>Properties of the redistribution\<close>

subsection \<open>Arithmetic of sizes and the branches of the loop\<close>

declare icc_loop.simps [simp del]

text \<open>A copy that is defined lies inside both buffers.\<close>

lemma memcpy_SomeD:
  assumes "memcpy dst doff src soff n = Some d"
  shows "doff + n \<le> length dst" and "soff + n \<le> length src"
    and "d = take doff dst @ take n (drop soff src) @ drop (doff + n) dst"
    and "doff < length dst"
proof -
  have c: "doff < length dst \<and> doff + n \<le> length dst \<and> soff + n \<le> length src"
    using assms unfolding memcpy_def
    by (cases "doff < length dst \<and> doff + n \<le> length dst \<and> soff + n \<le> length src") simp_all
  then show "doff + n \<le> length dst" and "soff + n \<le> length src" and "doff < length dst"
    by simp_all
  show "d = take doff dst @ take n (drop soff src) @ drop (doff + n) dst"
    using assms c unfolding memcpy_def by simp
qed

text \<open>
  \<open>size() - 17\<close> on \<open>size_t\<close>: exact from 17 bytes on, wrapped around below; a sum
  below \<open>SIZE_RANGE\<close> does not wrap.
\<close>

lemma seventeen_mod: "(17::nat) mod SIZE_RANGE = 17"
  by (simp add: SIZE_RANGE_def)

lemma SIZE_RANGE_half: "PTRDIFF_MAX + PTRDIFF_MAX < SIZE_RANGE"
  by (simp add: SIZE_RANGE_def PTRDIFF_MAX_def)

lemma SIZE_RANGE_gt17: "17 < SIZE_RANGE"
  by (simp add: SIZE_RANGE_def)

lemma size_sub_ge:
  assumes "17 \<le> a" and "a \<le> PTRDIFF_MAX"
  shows "size_sub a 17 = a - 17"
proof -
  have e: "a + SIZE_RANGE - 17 = (a - 17) + SIZE_RANGE"
    using assms(1) by arith
  have b: "a - 17 < SIZE_RANGE"
    using assms(2) SIZE_RANGE_half by arith
  have "size_sub a 17 = (a + SIZE_RANGE - 17) mod SIZE_RANGE"
    unfolding size_sub_def seventeen_mod ..
  also have "\<dots> = (a - 17) mod SIZE_RANGE"
    unfolding e by (rule mod_add_self2)
  also have "\<dots> = a - 17"
    using b by (rule mod_less)
  finally show ?thesis .
qed

lemma size_sub_lt:
  assumes "a < 17"
  shows "size_sub a 17 = a + SIZE_RANGE - 17"
proof -
  from assms SIZE_RANGE_gt17 have b: "a + SIZE_RANGE - 17 < SIZE_RANGE"
    by arith
  have "size_sub a 17 = (a + SIZE_RANGE - 17) mod SIZE_RANGE"
    unfolding size_sub_def seventeen_mod ..
  also have "\<dots> = a + SIZE_RANGE - 17"
    using b by (rule mod_less)
  finally show ?thesis .
qed

lemma size_add_small: "a + b < SIZE_RANGE \<Longrightarrow> size_add a b = a + b"
  by (simp add: size_add_def)

text \<open>
  A copy of \<open>size() - 17\<close> bytes to offset 17 that stays inside the range needs a
  range of 17 bytes at least, and is then the copy of the slice.
\<close>

lemma copy_needs_header:
  assumes b: "17 + size_sub a 17 \<le> a"
  shows "17 \<le> a"
proof (rule ccontr)
  assume "\<not> 17 \<le> a"
  then have "a < 17"
    by simp
  then have "size_sub a 17 = a + SIZE_RANGE - 17"
    by (rule size_sub_lt)
  with b SIZE_RANGE_gt17 show False
    by arith
qed

lemma copy_facts:
  assumes c: "memcpy di 17 icc pos (size_sub (length di) 17) = Some d"
    and di: "length di \<le> PTRDIFF_MAX" and li: "length icc \<le> PTRDIFF_MAX"
  shows "17 \<le> length di"
    and "pos + (length di - 17) \<le> length icc"
    and "d = take 17 di @ take (length di - 17) (drop pos icc)"
    and "size_add pos (size_sub (length di) 17) = pos + (length di - 17)"
proof -
  note m = memcpy_SomeD [OF c]
  show ge: "17 \<le> length di"
    using m(1) by (rule copy_needs_header)
  then have len: "size_sub (length di) 17 = length di - 17"
    using di by (rule size_sub_ge)
  show fit: "pos + (length di - 17) \<le> length icc"
    using m(2) unfolding len .
  have "drop (17 + (length di - 17)) di = []"
    using ge by simp
  then show "d = take 17 di @ take (length di - 17) (drop pos icc)"
    using m(3) unfolding len by simp
  have "pos + (length di - 17) < SIZE_RANGE"
    using fit li SIZE_RANGE_half by arith
  then show "size_add pos (size_sub (length di) 17) = pos + (length di - 17)"
    unfolding len by (rule size_add_small)
qed


lemma memcpy_length: "memcpy dst doff src soff n = Some d \<Longrightarrow> length d = length dst"
  by (auto simp: memcpy_def split: if_splits)

text \<open>The branches of one iteration of the loop.\<close>

lemma icc_loop_done:
  "\<not> i < length (app_data jd) \<Longrightarrow> icc_loop icc jd i pos = (OK, jd, pos)"
  by (subst icc_loop.simps) simp

lemma icc_loop_no_tag:
  "i < length (app_data jd) \<Longrightarrow> length (app_marker_type jd) \<le> i \<Longrightarrow>
   icc_loop icc jd i pos = (Failed OutOfBounds, jd, pos)"
  by (subst icc_loop.simps) simp

lemma icc_loop_skip:
  "i < length (app_data jd) \<Longrightarrow> i < length (app_marker_type jd) \<Longrightarrow>
   app_marker_type jd ! i \<noteq> kICC \<Longrightarrow>
   icc_loop icc jd i pos = icc_loop icc jd (Suc i) pos"
  by (subst icc_loop.simps) simp

lemma icc_loop_underrun:
  "i < length (app_data jd) \<Longrightarrow> i < length (app_marker_type jd) \<Longrightarrow>
   app_marker_type jd ! i = kICC \<Longrightarrow>
   length icc < size_add pos (size_sub (length (app_data jd ! i)) 17) \<Longrightarrow>
   icc_loop icc jd i pos = (Failed IccUnderrun, jd, pos)"
  by (subst icc_loop.simps) (simp add: Let_def)

lemma icc_loop_bad_copy:
  "i < length (app_data jd) \<Longrightarrow> i < length (app_marker_type jd) \<Longrightarrow>
   app_marker_type jd ! i = kICC \<Longrightarrow>
   \<not> length icc < size_add pos (size_sub (length (app_data jd ! i)) 17) \<Longrightarrow>
   memcpy (app_data jd ! i) 17 icc pos (size_sub (length (app_data jd ! i)) 17) = None \<Longrightarrow>
   icc_loop icc jd i pos = (Failed OutOfBounds, jd, pos)"
  by (subst icc_loop.simps) (simp add: Let_def)

lemma icc_loop_copy:
  "i < length (app_data jd) \<Longrightarrow> i < length (app_marker_type jd) \<Longrightarrow>
   app_marker_type jd ! i = kICC \<Longrightarrow>
   \<not> length icc < size_add pos (size_sub (length (app_data jd ! i)) 17) \<Longrightarrow>
   memcpy (app_data jd ! i) 17 icc pos (size_sub (length (app_data jd ! i)) 17) = Some d \<Longrightarrow>
   icc_loop icc jd i pos =
     icc_loop icc (jd\<lparr>app_data := (app_data jd)[i := d]\<rparr>) (Suc i)
       (size_add pos (size_sub (length (app_data jd ! i)) 17))"
  by (subst icc_loop.simps) (simp add: Let_def)


text \<open>
  Induction along the run of the loop: a property \<open>Q\<close> of the state at the entry of
  an iteration and of the result holds when it holds at every exit and passes from
  the next iteration to this one.
\<close>

lemma icc_loop_rule:
  assumes "\<And>jd i pos. \<not> i < length (app_data jd) \<Longrightarrow> Q jd i pos (OK, jd, pos)"
    and "\<And>jd i pos. i < length (app_data jd) \<Longrightarrow> length (app_marker_type jd) \<le> i \<Longrightarrow>
           Q jd i pos (Failed OutOfBounds, jd, pos)"
    and "\<And>jd i pos. i < length (app_data jd) \<Longrightarrow> i < length (app_marker_type jd) \<Longrightarrow>
           app_marker_type jd ! i \<noteq> kICC \<Longrightarrow>
           Q jd (Suc i) pos (icc_loop icc jd (Suc i) pos) \<Longrightarrow>
           Q jd i pos (icc_loop icc jd (Suc i) pos)"
    and "\<And>jd i pos len. i < length (app_data jd) \<Longrightarrow> i < length (app_marker_type jd) \<Longrightarrow>
           app_marker_type jd ! i = kICC \<Longrightarrow>
           len = size_sub (length (app_data jd ! i)) 17 \<Longrightarrow>
           length icc < size_add pos len \<Longrightarrow>
           Q jd i pos (Failed IccUnderrun, jd, pos)"
    and "\<And>jd i pos len. i < length (app_data jd) \<Longrightarrow> i < length (app_marker_type jd) \<Longrightarrow>
           app_marker_type jd ! i = kICC \<Longrightarrow>
           len = size_sub (length (app_data jd ! i)) 17 \<Longrightarrow>
           \<not> length icc < size_add pos len \<Longrightarrow>
           memcpy (app_data jd ! i) 17 icc pos len = None \<Longrightarrow>
           Q jd i pos (Failed OutOfBounds, jd, pos)"
    and "\<And>jd i pos len d jd1. i < length (app_data jd) \<Longrightarrow> i < length (app_marker_type jd) \<Longrightarrow>
           app_marker_type jd ! i = kICC \<Longrightarrow>
           len = size_sub (length (app_data jd ! i)) 17 \<Longrightarrow>
           \<not> length icc < size_add pos len \<Longrightarrow>
           memcpy (app_data jd ! i) 17 icc pos len = Some d \<Longrightarrow>
           jd1 = jd\<lparr>app_data := (app_data jd)[i := d]\<rparr> \<Longrightarrow>
           Q jd1 (Suc i) (size_add pos len) (icc_loop icc jd1 (Suc i) (size_add pos len)) \<Longrightarrow>
           Q jd i pos (icc_loop icc jd1 (Suc i) (size_add pos len))"
  shows "Q jd i pos (icc_loop icc jd i pos)"
proof (induction "length (app_data jd) - i" arbitrary: jd i pos)
  case 0
  then have "\<not> i < length (app_data jd)"
    by simp
  then show ?case
    using assms(1) by (simp add: icc_loop_done)
next
  case (Suc m)
  then have i: "i < length (app_data jd)"
    by simp
  show ?case
  proof (cases "length (app_marker_type jd) \<le> i")
    case True
    with i show ?thesis
      using assms(2) by (simp add: icc_loop_no_tag)
  next
    case False
    then have t: "i < length (app_marker_type jd)"
      by simp
    show ?thesis
    proof (cases "app_marker_type jd ! i = kICC")
      case False
      have "m = length (app_data jd) - Suc i"
        using Suc.hyps(2) by simp
      then have "Q jd (Suc i) pos (icc_loop icc jd (Suc i) pos)"
        by (rule Suc.hyps(1))
      with i t False show ?thesis
        using assms(3) by (simp add: icc_loop_skip)
    next
      case True
      define len where "len = size_sub (length (app_data jd ! i)) 17"
      show ?thesis
      proof (cases "length icc < size_add pos len")
        case True
        with i t \<open>app_marker_type jd ! i = kICC\<close> show ?thesis
          using assms(4) [of i jd len pos] icc_loop_underrun [of i jd icc pos]
          by (simp add: len_def)
      next
        case nu: False
        show ?thesis
        proof (cases "memcpy (app_data jd ! i) 17 icc pos len")
          case None
          with i t True nu show ?thesis
            using assms(5) [of i jd len pos] icc_loop_bad_copy [of i jd icc pos]
            by (simp add: len_def)
        next
          case (Some d)
          define jd1 where "jd1 = jd\<lparr>app_data := (app_data jd)[i := d]\<rparr>"
          have "m = length (app_data jd1) - Suc i"
            using Suc.hyps(2) by (simp add: jd1_def)
          then have "Q jd1 (Suc i) (size_add pos len)
                       (icc_loop icc jd1 (Suc i) (size_add pos len))"
            by (rule Suc.hyps(1))
          then have "Q jd i pos (icc_loop icc jd1 (Suc i) (size_add pos len))"
            using assms(6) [of i jd len pos d jd1] i t True nu Some
            by (simp add: len_def jd1_def)
          moreover have "icc_loop icc jd i pos = icc_loop icc jd1 (Suc i) (size_add pos len)"
            using icc_loop_copy [of i jd icc pos d] i t True nu Some
            by (simp add: len_def jd1_def)
          ultimately show ?thesis
            by simp
        qed
      qed
    qed
  qed
qed


subsection \<open>What the loop leaves unchanged\<close>

text \<open>
  Whatever its result, the loop keeps the tags, the number of ranges, the length of
  every range, and the ranges before the one it started at.
\<close>

lemma icc_loop_frame:
  "app_marker_type (fst (snd (icc_loop icc jd i pos))) = app_marker_type jd \<and>
   length (app_data (fst (snd (icc_loop icc jd i pos)))) = length (app_data jd) \<and>
   (\<forall>k < length (app_data jd).
      length (app_data (fst (snd (icc_loop icc jd i pos))) ! k) = length (app_data jd ! k)) \<and>
   (\<forall>k < i. app_data (fst (snd (icc_loop icc jd i pos))) ! k = app_data jd ! k)"
proof (rule icc_loop_rule
    [where Q = "\<lambda>jd i pos r. app_marker_type (fst (snd r)) = app_marker_type jd \<and>
       length (app_data (fst (snd r))) = length (app_data jd) \<and>
       (\<forall>k < length (app_data jd). length (app_data (fst (snd r)) ! k) = length (app_data jd ! k)) \<and>
       (\<forall>k < i. app_data (fst (snd r)) ! k = app_data jd ! k)"], goal_cases)
  case (6 jd i pos len d jd1)
  have ld: "length d = length (app_data jd ! i)"
    using 6(6) by (rule memcpy_length)
  have "\<And>k. k < length (app_data jd) \<Longrightarrow> length (app_data jd1 ! k) = length (app_data jd ! k)"
    using ld 6(1) by (simp add: 6(7) nth_list_update)
  moreover have "\<And>k. k < i \<Longrightarrow> app_data jd1 ! k = app_data jd ! k"
    by (simp add: 6(7))
  moreover have "app_marker_type jd1 = app_marker_type jd"
    and "length (app_data jd1) = length (app_data jd)"
    by (simp_all add: 6(7))
  ultimately show ?case
    using 6(8) by simp
qed simp_all

text \<open>
  The slice lengths and the offsets depend on the tags and the lengths of the
  ranges only, so the update of one iteration keeps them.
\<close>

lemma vector_sizes_okD:
  assumes "vector_sizes_ok icc jd"
  shows "length icc \<le> PTRDIFF_MAX"
    and "k < length (app_data jd) \<Longrightarrow> length (app_data jd ! k) \<le> PTRDIFF_MAX"
  using assms by (simp_all add: vector_sizes_ok_def list_all_length)

lemma slice_len_cong:
  "app_marker_type jd1 = app_marker_type jd \<Longrightarrow>
   length (app_data jd1 ! k) = length (app_data jd ! k) \<Longrightarrow>
   slice_len jd1 k = slice_len jd k"
  by (simp add: slice_len_def)

lemma icc_offset_cong:
  "app_marker_type jd1 = app_marker_type jd \<Longrightarrow>
   (\<And>k. k < m \<Longrightarrow> length (app_data jd1 ! k) = length (app_data jd ! k)) \<Longrightarrow>
   icc_offset jd1 m = icc_offset jd m"
proof (induction m)
  case 0
  show ?case by simp
next
  case (Suc m)
  have "icc_offset jd1 m = icc_offset jd m"
    using Suc.prems by (intro Suc.IH) simp_all
  moreover have "slice_len jd1 m = slice_len jd m"
    using Suc.prems by (intro slice_len_cong) simp_all
  ultimately show ?case by simp
qed


lemma update_keeps_shape:
  assumes "i < length (app_data jd)" and "length d = length (app_data jd ! i)"
    and "jd1 = jd\<lparr>app_data := (app_data jd)[i := d]\<rparr>"
  shows "app_marker_type jd1 = app_marker_type jd"
    and "length (app_data jd1) = length (app_data jd)"
    and "length (app_data jd1 ! k) = length (app_data jd ! k)"
    and "k \<noteq> i \<Longrightarrow> app_data jd1 ! k = app_data jd ! k"
    and "app_data jd1 ! i = d"
proof -
  show "app_marker_type jd1 = app_marker_type jd"
    and "length (app_data jd1) = length (app_data jd)"
    by (simp_all add: assms(3))
  show "app_data jd1 ! i = d"
    using assms(1) by (simp add: assms(3))
  show "k \<noteq> i \<Longrightarrow> app_data jd1 ! k = app_data jd ! k"
    by (simp add: assms(3))
  show "length (app_data jd1 ! k) = length (app_data jd ! k)"
    using assms(1,2) by (cases "k = i") (simp_all add: assms(3))
qed

lemma update_keeps_offsets:
  assumes "i < length (app_data jd)" and "length d = length (app_data jd ! i)"
    and "jd1 = jd\<lparr>app_data := (app_data jd)[i := d]\<rparr>"
  shows "slice_len jd1 k = slice_len jd k"
    and "icc_offset jd1 k = icc_offset jd k"
    and "vector_sizes_ok icc jd \<Longrightarrow> vector_sizes_ok icc jd1"
proof -
  note sh = update_keeps_shape [OF assms]
  show "slice_len jd1 k = slice_len jd k"
    using sh(1) sh(3) by (rule slice_len_cong)
  show "icc_offset jd1 k = icc_offset jd k"
    using sh(1) sh(3) by (rule icc_offset_cong)
  show "vector_sizes_ok icc jd1" if "vector_sizes_ok icc jd"
    using that sh(2) sh(3) by (simp add: vector_sizes_ok_def list_all_length)
qed

subsection \<open>A loop that goes through all the ranges\<close>

lemma redistributed_cong:
  assumes "app_marker_type jd1 = app_marker_type jd"
    and "app_data jd1 ! k = app_data jd ! k"
    and "slice_len jd1 k = slice_len jd k"
    and "icc_offset jd1 k = icc_offset jd k"
  shows "redistributed icc jd1 k d' = redistributed icc jd k d'"
  unfolding redistributed_def assms ..

lemma slice_len_ICC:
  "i < length (app_marker_type jd) \<Longrightarrow> app_marker_type jd ! i = kICC \<Longrightarrow>
   slice_len jd i = length (app_data jd ! i) - 17"
  by (simp add: slice_len_def)

lemma slice_len_other:
  "app_marker_type jd ! i \<noteq> kICC \<Longrightarrow> slice_len jd i = 0"
  by (simp add: slice_len_def)

text \<open>
  The invariant of the loop: entered at range \<open>i\<close> with the offset \<open>icc_offset jd i\<close>,
  a run that ends with \<open>OK\<close> leaves every range from \<open>i\<close> on \<open>redistributed\<close> and
  ends at the final offset.
\<close>

lemma icc_loop_success:
  "vector_sizes_ok icc jd \<longrightarrow> i \<le> length (app_data jd) \<longrightarrow> pos = icc_offset jd i \<longrightarrow>
   fst (icc_loop icc jd i pos) = OK \<longrightarrow>
     snd (snd (icc_loop icc jd i pos)) = icc_offset jd (length (app_data jd)) \<and>
     (\<forall>k. i \<le> k \<and> k < length (app_data jd) \<longrightarrow>
        redistributed icc jd k (app_data (fst (snd (icc_loop icc jd i pos))) ! k))"
proof (rule icc_loop_rule
    [where Q = "\<lambda>jd i pos r. vector_sizes_ok icc jd \<longrightarrow> i \<le> length (app_data jd) \<longrightarrow>
       pos = icc_offset jd i \<longrightarrow> fst r = OK \<longrightarrow>
         snd (snd r) = icc_offset jd (length (app_data jd)) \<and>
         (\<forall>k. i \<le> k \<and> k < length (app_data jd) \<longrightarrow>
            redistributed icc jd k (app_data (fst (snd r)) ! k))"], goal_cases)
  case (1 jd i pos)
  then show ?case
    by auto
next
  case (2 jd i pos)
  then show ?case
    by simp
next
  case (3 jd i pos)
  let ?r = "icc_loop icc jd (Suc i) pos"
  show ?case
  proof (intro impI)
    assume v: "vector_sizes_ok icc jd" and p: "pos = icc_offset jd i" and ok: "fst ?r = OK"
    have p': "pos = icc_offset jd (Suc i)"
      using p 3(3) by (simp add: slice_len_other)
    have ih: "snd (snd ?r) = icc_offset jd (length (app_data jd))"
      "\<And>k. Suc i \<le> k \<Longrightarrow> k < length (app_data jd) \<Longrightarrow>
         redistributed icc jd k (app_data (fst (snd ?r)) ! k)"
      using 3(4) v p' ok 3(1) by simp_all
    have "app_data (fst (snd ?r)) ! i = app_data jd ! i"
      using icc_loop_frame [of icc jd "Suc i" pos] by simp
    then have "redistributed icc jd i (app_data (fst (snd ?r)) ! i)"
      using 3(2) 3(3) by (simp add: redistributed_def)
    then have "\<And>k. i \<le> k \<Longrightarrow> k < length (app_data jd) \<Longrightarrow>
         redistributed icc jd k (app_data (fst (snd ?r)) ! k)"
      using ih(2) by (metis Suc_leI le_neq_implies_less)
    with ih(1) show "snd (snd ?r) = icc_offset jd (length (app_data jd)) \<and>
      (\<forall>k. i \<le> k \<and> k < length (app_data jd) \<longrightarrow>
         redistributed icc jd k (app_data (fst (snd ?r)) ! k))"
      by simp
  qed
next
  case (4 jd i pos len)
  then show ?case
    by simp
next
  case (5 jd i pos len)
  then show ?case
    by simp
next
  case (6 jd i pos len d jd1)
  let ?r = "icc_loop icc jd1 (Suc i) (size_add pos len)"
  let ?di = "app_data jd ! i"
  show ?case
  proof (intro impI)
    assume v: "vector_sizes_ok icc jd" and p: "pos = icc_offset jd i" and ok: "fst ?r = OK"
    have c: "memcpy ?di 17 icc pos (size_sub (length ?di) 17) = Some d"
      using 6(6) unfolding 6(4) .
    note cf = copy_facts [OF c vector_sizes_okD(2) [OF v 6(1)] vector_sizes_okD(1) [OF v]]
    have ld: "length d = length ?di"
      using c by (rule memcpy_length)
    note sh = update_keeps_shape [OF 6(1) ld 6(7)]
    note off = update_keeps_offsets [OF 6(1) ld 6(7)]
    have sl: "slice_len jd i = length ?di - 17"
      using 6(2) 6(3) by (rule slice_len_ICC)
    have pos1: "size_add pos len = icc_offset jd1 (Suc i)"
      unfolding 6(4) cf(4) off(2) by (simp add: p sl)
    have v1: "vector_sizes_ok icc jd1"
      using v by (rule off(3))
    have ih: "snd (snd ?r) = icc_offset jd1 (length (app_data jd1))"
      "\<And>k. Suc i \<le> k \<Longrightarrow> k < length (app_data jd1) \<Longrightarrow>
         redistributed icc jd1 k (app_data (fst (snd ?r)) ! k)"
      using 6(8) v1 pos1 ok 6(1) sh(2) by simp_all
    have total: "snd (snd ?r) = icc_offset jd (length (app_data jd))"
      using ih(1) unfolding off(2) sh(2) .
    have later: "redistributed icc jd k (app_data (fst (snd ?r)) ! k)"
      if "Suc i \<le> k" and "k < length (app_data jd)" for k
    proof -
      have "k \<noteq> i"
        using that(1) by simp
      then have "app_data jd1 ! k = app_data jd ! k"
        by (rule sh(4))
      then have "redistributed icc jd1 k (app_data (fst (snd ?r)) ! k)
                 = redistributed icc jd k (app_data (fst (snd ?r)) ! k)"
        using sh(1) off(1) off(2) by (intro redistributed_cong)
      then show ?thesis
        using ih(2) [OF that(1)] that(2) sh(2) by simp
    qed
    have "app_data (fst (snd ?r)) ! i = app_data jd1 ! i"
      using icc_loop_frame [of icc jd1 "Suc i" "size_add pos len"] by simp
    then have "app_data (fst (snd ?r)) ! i
                 = take 17 ?di @ take (slice_len jd i) (drop (icc_offset jd i) icc)"
      unfolding sh(5) sl using cf(3) p by simp
    moreover have "icc_offset jd i + slice_len jd i \<le> length icc"
      using cf(2) unfolding sl p .
    ultimately have "redistributed icc jd i (app_data (fst (snd ?r)) ! i)"
      using 6(2) 6(3) cf(1) by (simp add: redistributed_def)
    then have "\<And>k. i \<le> k \<Longrightarrow> k < length (app_data jd) \<Longrightarrow>
         redistributed icc jd k (app_data (fst (snd ?r)) ! k)"
      using later by (metis Suc_leI le_neq_implies_less)
    with total show "snd (snd ?r) = icc_offset jd (length (app_data jd)) \<and>
      (\<forall>k. i \<le> k \<and> k < length (app_data jd) \<longrightarrow>
         redistributed icc jd k (app_data (fst (snd ?r)) ! k))"
      by simp
  qed
qed

text \<open>Put end to end, the slices are a prefix of the profile.\<close>

lemma payload_prefix:
  assumes "\<And>k. k < m \<Longrightarrow> f k = take (slice_len jd k) (drop (icc_offset jd k) icc)"
  shows "concat (map f [0..<m]) = take (icc_offset jd m) icc"
  using assms
proof (induction m)
  case 0
  show ?case by simp
next
  case (Suc m)
  have "concat (map f [0..<m]) = take (icc_offset jd m) icc"
    using Suc.prems by (intro Suc.IH) simp
  moreover have "f m = take (slice_len jd m) (drop (icc_offset jd m) icc)"
    using Suc.prems by simp
  ultimately show ?case
    by (simp add: take_add)
qed

lemma redistributed_payload:
  assumes "redistributed icc jd k d'"
  shows "(if k < length (app_marker_type jd) \<and> app_marker_type jd ! k = kICC
          then drop 17 d' else [])
         = take (slice_len jd k) (drop (icc_offset jd k) icc)"
proof (cases "app_marker_type jd ! k = kICC")
  case True
  with assms have "k < length (app_marker_type jd)" and "17 \<le> length (app_data jd ! k)"
    and "d' = take 17 (app_data jd ! k) @ take (slice_len jd k) (drop (icc_offset jd k) icc)"
    by (simp_all add: redistributed_def)
  then show ?thesis
    using True by simp
next
  case False
  then show ?thesis
    by (simp add: slice_len_other)
qed

lemma icc_loop_payload:
  assumes "app_marker_type jd' = app_marker_type jd"
    and "length (app_data jd') = length (app_data jd)"
    and "\<And>k. k < length (app_data jd) \<Longrightarrow> redistributed icc jd k (app_data jd' ! k)"
  shows "icc_payload jd' = take (icc_offset jd (length (app_data jd))) icc"
  unfolding icc_payload_def assms(1) assms(2)
  by (rule payload_prefix) (rule redistributed_payload, rule assms(3))

text \<open>The result of lines 125-145 in terms of the result of the loop.\<close>

lemma set_icc_in_jpeg_data_Some:
  "set_icc_in_jpeg_data icc (Some jd) =
     ((case fst (icc_loop icc jd 0 0) of
         Failed e \<Rightarrow> Failed e
       | OK \<Rightarrow> if snd (snd (icc_loop icc jd 0 0)) \<noteq> length icc \<and>
                  snd (snd (icc_loop icc jd 0 0)) \<noteq> 0
               then Failed IccOverrun else OK),
      Some (fst (snd (icc_loop icc jd 0 0))))"
proof -
  obtain st jd2 pos2 where r: "icc_loop icc jd 0 0 = (st, jd2, pos2)"
    by (cases "icc_loop icc jd 0 0") auto
  show ?thesis
    by (cases st) (simp_all add: set_icc_in_jpeg_data_def r)
qed

lemma icc_loop_status:
  "fst (icc_loop icc jd i pos) = OK \<or> fst (icc_loop icc jd i pos) = Failed IccUnderrun \<or>
   fst (icc_loop icc jd i pos) = Failed OutOfBounds"
  by (rule icc_loop_rule
      [where Q = "\<lambda>jd i pos r. fst r = OK \<or> fst r = Failed IccUnderrun \<or>
         fst r = Failed OutOfBounds"]) simp_all

lemma all_ranges_processed:
  assumes r: "set_icc_in_jpeg_data icc (Some jd) = (st, Some jd')"
    and st: "st = OK \<or> st = Failed IccOverrun"
  shows "fst (icc_loop icc jd 0 0) = OK"
    and "fst (snd (icc_loop icc jd 0 0)) = jd'"
    and "st = OK \<Longrightarrow> snd (snd (icc_loop icc jd 0 0)) = length icc \<or>
           snd (snd (icc_loop icc jd 0 0)) = 0"
proof -
  let ?r = "icc_loop icc jd 0 0"
  from r have s: "st = (case fst ?r of
         Failed e \<Rightarrow> Failed e
       | OK \<Rightarrow> if snd (snd ?r) \<noteq> length icc \<and> snd (snd ?r) \<noteq> 0
               then Failed IccOverrun else OK)"
    and j: "jd' = fst (snd ?r)"
    by (simp_all add: set_icc_in_jpeg_data_Some)
  show ok: "fst ?r = OK"
    using icc_loop_status [of icc jd 0 0] s st by auto
  show "fst (snd ?r) = jd'"
    using j by simp
  show "snd (snd ?r) = length icc \<or> snd (snd ?r) = 0" if "st = OK"
    using s that ok by (simp split: if_splits)
qed

text \<open>
  Claim C1.  Take a decode with a legacy payload \<open>jd\<close> and a profile \<open>icc\<close> in which
  the redistribution does not stop at the underrun check of line 133, so that it
  goes through all the ranges: it returns success, or fails only at the final check
  of line 142.  Let \<open>jd'\<close> be the payload as it leaves it.  Then the tags and the
  number of ranges are unchanged, and every range \<open>k\<close> is \<open>redistributed\<close>: a range
  tagged \<open>kICC\<close> keeps its first 17 bytes, and from byte 17 on holds the slice of the
  profile that starts at the running offset \<open>icc_offset jd k\<close>, the sum of the lengths
  of the slices written to the ICC ranges before it, and has the length
  \<open>slice_len jd k\<close> of the rest of the range; a range with another tag is unchanged.
  The slices follow one another in the profile in the order of the ranges, without
  gap or overlap: put end to end, they are the first \<open>final_offset jd\<close> bytes of the
  profile, and on success nothing or the whole profile.
\<close>

theorem icc_slices_written:
  assumes v: "vector_sizes_ok icc jd"
    and r: "set_icc_in_jpeg_data icc (Some jd) = (st, Some jd')"
    and st: "st = OK \<or> st = Failed IccOverrun"
  shows "app_marker_type jd' = app_marker_type jd \<and>
         length (app_data jd') = length (app_data jd) \<and>
         (\<forall>k < length (app_data jd). redistributed icc jd k (app_data jd' ! k)) \<and>
         icc_payload jd' = take (final_offset jd) icc \<and>
         (st = OK \<longrightarrow> icc_payload jd' = [] \<or> icc_payload jd' = icc)"
proof -
  let ?r = "icc_loop icc jd 0 0"
  note d = all_ranges_processed [OF r st]
  have shape: "app_marker_type jd' = app_marker_type jd"
    "length (app_data jd') = length (app_data jd)"
    using icc_loop_frame [of icc jd 0 0] unfolding d(2) by simp_all
  have each: "redistributed icc jd k (app_data jd' ! k)" if "k < length (app_data jd)" for k
    using icc_loop_success [of icc jd 0 0] v d(1) that unfolding d(2) by simp
  have total: "snd (snd ?r) = final_offset jd"
    using icc_loop_success [of icc jd 0 0] v d(1) by (simp add: final_offset_def)
  have pay: "icc_payload jd' = take (final_offset jd) icc"
    unfolding final_offset_def using shape each by (rule icc_loop_payload)
  have "icc_payload jd' = [] \<or> icc_payload jd' = icc" if "st = OK"
    using d(3) [OF that] unfolding total pay by auto
  with shape each pay show ?thesis
    by simp
qed

text \<open>
  A profile of three bytes over two ICC ranges with two and one bytes after the
  header, and a range with another tag between them.
\<close>

theorem icc_slices_written_witness:
  "vector_sizes_ok [1, 2, 3]
     \<lparr>app_data = [hdr17 @ [9, 9], [7, 7], hdr17 @ [9]],
      app_marker_type = [kICC, kOtherMarker 1, kICC]\<rparr> \<and>
   set_icc_in_jpeg_data [1, 2, 3]
     (Some \<lparr>app_data = [hdr17 @ [9, 9], [7, 7], hdr17 @ [9]],
            app_marker_type = [kICC, kOtherMarker 1, kICC]\<rparr>)
   = (OK, Some \<lparr>app_data = [hdr17 @ [1, 2], [7, 7], hdr17 @ [3]],
                app_marker_type = [kICC, kOtherMarker 1, kICC]\<rparr>) \<and>
   redistributed [1, 2, 3]
     \<lparr>app_data = [hdr17 @ [9, 9], [7, 7], hdr17 @ [9]],
      app_marker_type = [kICC, kOtherMarker 1, kICC]\<rparr> 2 (hdr17 @ [3]) \<and>
   icc_payload \<lparr>app_data = [hdr17 @ [1, 2], [7, 7], hdr17 @ [3]],
                app_marker_type = [kICC, kOtherMarker 1, kICC]\<rparr> = [1, 2, 3]"
proof -
  let ?jd = "\<lparr>app_data = [hdr17 @ [9, 9], [7, 7], hdr17 @ [9 :: byte]],
              app_marker_type = [kICC, kOtherMarker 1, kICC]\<rparr>"
  let ?jd' = "\<lparr>app_data = [hdr17 @ [1, 2], [7, 7], hdr17 @ [3 :: byte]],
               app_marker_type = [kICC, kOtherMarker 1, kICC]\<rparr>"
  have v: "vector_sizes_ok [1, 2, 3] ?jd"
    by (simp add: vector_sizes_ok_def PTRDIFF_MAX_def hdr17_def)
  have r: "set_icc_in_jpeg_data [1, 2, 3] (Some ?jd) = (OK, Some ?jd')"
    by (simp add: set_icc_in_jpeg_data_def icc_loop.simps memcpy_def size_sub_def
        size_add_def SIZE_RANGE_def hdr17_def)
  have off: "final_offset ?jd = 3"
    by (simp add: final_offset_def eval_nat_numeral slice_len_def hdr17_def)
  have "OK = OK \<or> OK = Failed IccOverrun"
    by simp
  note t = icc_slices_written [OF v r this]
  have q: "\<forall>k < length (app_data ?jd). redistributed [1, 2, 3] ?jd k (app_data ?jd' ! k)"
    using t by (elim conjE)
  have p: "icc_payload ?jd' = take (final_offset ?jd) [1, 2, 3]"
    using t by (elim conjE)
  have q2: "redistributed [1, 2, 3] ?jd 2 (hdr17 @ [3])"
    using q [rule_format, of 2] by simp
  have p2: "icc_payload ?jd' = [1, 2, 3]"
    unfolding p off by simp
  from v r q2 p2 show ?thesis
    by (intro conjI)
qed

text \<open>
  The condition on the run is needed.  With a profile of one byte and an ICC range
  that has room for two, line 133 returns the underrun before the \<open>memcpy\<close>: a
  payload was supplied and a profile was decoded, and the ICC range holds the bytes
  it had, not a slice of the profile.
\<close>

theorem icc_slices_written_counterexample:
  "vector_sizes_ok [1] \<lparr>app_data = [hdr17 @ [9, 9]], app_marker_type = [kICC]\<rparr> \<and>
   set_icc_in_jpeg_data [1] (Some \<lparr>app_data = [hdr17 @ [9, 9]], app_marker_type = [kICC]\<rparr>)
   = (Failed IccUnderrun, Some \<lparr>app_data = [hdr17 @ [9, 9]], app_marker_type = [kICC]\<rparr>) \<and>
   \<not> redistributed [1] \<lparr>app_data = [hdr17 @ [9, 9]], app_marker_type = [kICC]\<rparr> 0
       (hdr17 @ [9, 9])"
proof -
  let ?jd = "\<lparr>app_data = [hdr17 @ [9, 9 :: byte]], app_marker_type = [kICC]\<rparr>"
  have v: "vector_sizes_ok [1] ?jd"
    by (simp add: vector_sizes_ok_def PTRDIFF_MAX_def hdr17_def)
  have r: "set_icc_in_jpeg_data [1] (Some ?jd) = (Failed IccUnderrun, Some ?jd)"
    by (simp add: set_icc_in_jpeg_data_def icc_loop.simps memcpy_def size_sub_def
        size_add_def SIZE_RANGE_def hdr17_def)
  have n: "\<not> redistributed [1] ?jd 0 (hdr17 @ [9, 9])"
    by (simp add: redistributed_def slice_len_def hdr17_def)
  from v r n show ?thesis
    by (intro conjI)
qed

subsection \<open>The failures of the redistribution\<close>

text \<open>The condition on the payload by index, and its stability under one iteration.\<close>

lemma icc_markers_hold_payloadD:
  assumes "icc_markers_hold_payload jd"
  shows "length (app_marker_type jd) = length (app_data jd)"
    and "k < length (app_data jd) \<Longrightarrow> app_marker_type jd ! k = kICC \<Longrightarrow>
         17 < length (app_data jd ! k)"
  using assms by (simp_all add: icc_markers_hold_payload_def list_all_length)

lemma icc_markers_hold_payloadI:
  assumes "length (app_marker_type jd) = length (app_data jd)"
    and "\<And>k. k < length (app_data jd) \<Longrightarrow> app_marker_type jd ! k = kICC \<Longrightarrow>
         17 < length (app_data jd ! k)"
  shows "icc_markers_hold_payload jd"
  using assms by (simp add: icc_markers_hold_payload_def list_all_length)

lemma update_keeps_payload:
  assumes "i < length (app_data jd)" and "length d = length (app_data jd ! i)"
    and "jd1 = jd\<lparr>app_data := (app_data jd)[i := d]\<rparr>"
    and h: "icc_markers_hold_payload jd"
  shows "icc_markers_hold_payload jd1"
proof (rule icc_markers_hold_payloadI)
  note sh = update_keeps_shape [OF assms(1-3)]
  show "length (app_marker_type jd1) = length (app_data jd1)"
    unfolding sh(1) sh(2) by (rule icc_markers_hold_payloadD(1) [OF h])
  show "17 < length (app_data jd1 ! k)"
    if "k < length (app_data jd1)" and "app_marker_type jd1 ! k = kICC" for k
    using that icc_markers_hold_payloadD(2) [OF h, of k] unfolding sh(1) sh(2) sh(3) by simp
qed

lemma underrun_at_cong:
  assumes "app_marker_type jd1 = app_marker_type jd"
    and "length (app_data jd1) = length (app_data jd)"
    and "slice_len jd1 k = slice_len jd k"
    and "icc_offset jd1 k = icc_offset jd k"
  shows "underrun_at icc jd1 k = underrun_at icc jd k"
  unfolding underrun_at_def assms ..

text \<open>
  On such a payload, line 132 computes the slice length and line 133 adds without
  wrap-around, and element 17 of the range exists.
\<close>

lemma wf_step:
  assumes v: "vector_sizes_ok icc jd" and h: "icc_markers_hold_payload jd"
    and i: "i < length (app_data jd)" and t: "app_marker_type jd ! i = kICC"
    and p: "pos \<le> length icc"
  shows "size_sub (length (app_data jd ! i)) 17 = slice_len jd i"
    and "size_add pos (size_sub (length (app_data jd ! i)) 17) = pos + slice_len jd i"
    and "17 + slice_len jd i = length (app_data jd ! i)"
    and "17 < length (app_data jd ! i)"
proof -
  show gt: "17 < length (app_data jd ! i)"
    using i t by (rule icc_markers_hold_payloadD(2) [OF h])
  then have ge: "17 \<le> length (app_data jd ! i)"
    by simp
  have le: "length (app_data jd ! i) \<le> PTRDIFF_MAX"
    using i by (rule vector_sizes_okD(2) [OF v])
  have "i < length (app_marker_type jd)"
    using i unfolding icc_markers_hold_payloadD(1) [OF h] .
  then have sl: "slice_len jd i = length (app_data jd ! i) - 17"
    using t by (rule slice_len_ICC)
  show s: "size_sub (length (app_data jd ! i)) 17 = slice_len jd i"
    unfolding sl using ge le by (rule size_sub_ge)
  show "17 + slice_len jd i = length (app_data jd ! i)"
    unfolding sl using ge by simp
  have "pos + slice_len jd i < SIZE_RANGE"
    using p vector_sizes_okD(1) [OF v] le SIZE_RANGE_half unfolding sl by arith
  then show "size_add pos (size_sub (length (app_data jd ! i)) 17) = pos + slice_len jd i"
    unfolding s by (rule size_add_small)
qed

text \<open>
  The invariant of the loop on such a payload: entered at range \<open>i\<close> with the offset
  \<open>icc_offset jd i\<close> inside the profile, the loop ends with \<open>OK\<close> when no range from
  \<open>i\<close> on runs short, and otherwise with the underrun error at the first range
  that does, which it leaves as it was.
\<close>

lemma stops_at_skip:
  assumes "stops_at icc jd (Suc i) r k" and "\<not> underrun_at icc jd i"
  shows "stops_at icc jd i r k"
proof -
  have "\<not> underrun_at icc jd l" if "i \<le> l" and "l < k" for l
  proof (cases "l = i")
    case True
    with assms(2) show ?thesis by simp
  next
    case False
    with that have "Suc i \<le> l" by simp
    with assms(1) that(2) show ?thesis
      unfolding stops_at_def by blast
  qed
  with assms(1) show ?thesis
    unfolding stops_at_def by auto
qed

lemma icc_loop_well_formed:
  "vector_sizes_ok icc jd \<longrightarrow> icc_markers_hold_payload jd \<longrightarrow> i \<le> length (app_data jd) \<longrightarrow>
   pos = icc_offset jd i \<longrightarrow> pos \<le> length icc \<longrightarrow>
     (fst (icc_loop icc jd i pos) = OK \<and> (\<forall>k. i \<le> k \<longrightarrow> \<not> underrun_at icc jd k)) \<or>
     (fst (icc_loop icc jd i pos) = Failed IccUnderrun \<and>
      (\<exists>k. stops_at icc jd i (icc_loop icc jd i pos) k))"
proof (rule icc_loop_rule
    [where Q = "\<lambda>jd i pos r. vector_sizes_ok icc jd \<longrightarrow> icc_markers_hold_payload jd \<longrightarrow>
       i \<le> length (app_data jd) \<longrightarrow> pos = icc_offset jd i \<longrightarrow> pos \<le> length icc \<longrightarrow>
         (fst r = OK \<and> (\<forall>k. i \<le> k \<longrightarrow> \<not> underrun_at icc jd k)) \<or>
         (fst r = Failed IccUnderrun \<and> (\<exists>k. stops_at icc jd i r k))"], goal_cases)
  case (1 jd i pos)
  then show ?case
    by (simp add: underrun_at_def)
next
  case (2 jd i pos)
  show ?case
  proof (intro impI)
    assume "icc_markers_hold_payload jd"
    then have "length (app_marker_type jd) = length (app_data jd)"
      by (rule icc_markers_hold_payloadD(1))
    with 2 have False
      by simp
    then show "(fst (Failed OutOfBounds, jd, pos) = OK \<and> (\<forall>k. i \<le> k \<longrightarrow> \<not> underrun_at icc jd k)) \<or>
      (fst (Failed OutOfBounds, jd, pos) = Failed IccUnderrun \<and>
       (\<exists>k. stops_at icc jd i (Failed OutOfBounds, jd, pos) k))" ..
  qed
next
  case (3 jd i pos)
  let ?r = "icc_loop icc jd (Suc i) pos"
  show ?case
  proof (intro impI)
    assume v: "vector_sizes_ok icc jd" and h: "icc_markers_hold_payload jd"
      and p: "pos = icc_offset jd i" and b: "pos \<le> length icc"
    have nu: "\<not> underrun_at icc jd i"
      using 3(3) by (simp add: underrun_at_def)
    have p': "pos = icc_offset jd (Suc i)"
      using p 3(3) by (simp add: slice_len_other)
    from 3(4) v h p' b 3(1)
    consider (ok) "fst ?r = OK" "\<forall>k. Suc i \<le> k \<longrightarrow> \<not> underrun_at icc jd k"
      | (stop) k where "fst ?r = Failed IccUnderrun" "stops_at icc jd (Suc i) ?r k"
      by auto
    then show "(fst ?r = OK \<and> (\<forall>k. i \<le> k \<longrightarrow> \<not> underrun_at icc jd k)) \<or>
      (fst ?r = Failed IccUnderrun \<and> (\<exists>k. stops_at icc jd i ?r k))"
    proof cases
      case ok
      have "\<not> underrun_at icc jd k" if "i \<le> k" for k
        using that ok(2) nu by (cases "k = i") auto
      with ok(1) show ?thesis
        by simp
    next
      case stop
      from stop(2) nu have "stops_at icc jd i ?r k"
        by (rule stops_at_skip)
      with stop(1) show ?thesis
        by blast
    qed
  qed
next
  case (4 jd i pos len)
  show ?case
  proof (intro impI)
    assume v: "vector_sizes_ok icc jd" and h: "icc_markers_hold_payload jd"
      and p: "pos = icc_offset jd i" and b: "pos \<le> length icc"
    note w = wf_step [OF v h 4(1) 4(3) b]
    have "length icc < pos + slice_len jd i"
      using 4(5) unfolding 4(4) w(2) .
    then have "underrun_at icc jd i"
      using 4(1) 4(3) p by (simp add: underrun_at_def)
    then have "stops_at icc jd i (Failed IccUnderrun, jd, pos) i"
      using p by (auto simp: stops_at_def)
    then show "(fst (Failed IccUnderrun, jd, pos) = OK \<and> (\<forall>k. i \<le> k \<longrightarrow> \<not> underrun_at icc jd k)) \<or>
      (fst (Failed IccUnderrun, jd, pos) = Failed IccUnderrun \<and>
       (\<exists>k. stops_at icc jd i (Failed IccUnderrun, jd, pos) k))"
      by auto
  qed
next
  case (5 jd i pos len)
  show ?case
  proof (intro impI)
    assume v: "vector_sizes_ok icc jd" and h: "icc_markers_hold_payload jd"
      and p: "pos = icc_offset jd i" and b: "pos \<le> length icc"
    note w = wf_step [OF v h 5(1) 5(3) b]
    have "pos + slice_len jd i \<le> length icc"
      using 5(5) unfolding 5(4) w(2) by simp
    moreover have "memcpy (app_data jd ! i) 17 icc pos (slice_len jd i) = None"
      using 5(6) unfolding 5(4) w(1) .
    ultimately have False
      using w(3) w(4) by (simp add: memcpy_def)
    then show "(fst (Failed OutOfBounds, jd, pos) = OK \<and> (\<forall>k. i \<le> k \<longrightarrow> \<not> underrun_at icc jd k)) \<or>
      (fst (Failed OutOfBounds, jd, pos) = Failed IccUnderrun \<and>
       (\<exists>k. stops_at icc jd i (Failed OutOfBounds, jd, pos) k))" ..
  qed
next
  case (6 jd i pos len d jd1)
  let ?r = "icc_loop icc jd1 (Suc i) (size_add pos len)"
  show ?case
  proof (intro impI)
    assume v: "vector_sizes_ok icc jd" and h: "icc_markers_hold_payload jd"
      and p: "pos = icc_offset jd i" and b: "pos \<le> length icc"
    note w = wf_step [OF v h 6(1) 6(3) b]
    have fit: "pos + slice_len jd i \<le> length icc"
      using 6(5) unfolding 6(4) w(2) by simp
    have nu: "\<not> underrun_at icc jd i"
      using fit p by (simp add: underrun_at_def)
    have ld: "length d = length (app_data jd ! i)"
      using 6(6) by (rule memcpy_length)
    note sh = update_keeps_shape [OF 6(1) ld 6(7)]
    note off = update_keeps_offsets [OF 6(1) ld 6(7)]
    have v1: "vector_sizes_ok icc jd1"
      using v by (rule off(3))
    have h1: "icc_markers_hold_payload jd1"
      using 6(1) ld 6(7) h by (rule update_keeps_payload)
    have pos1: "size_add pos len = icc_offset jd1 (Suc i)"
      unfolding 6(4) w(2) off(2) by (simp add: p)
    have b1: "size_add pos len \<le> length icc"
      unfolding 6(4) w(2) by (rule fit)
    have un: "underrun_at icc jd1 k = underrun_at icc jd k" for k
      using sh(1) sh(2) off(1) off(2) by (rule underrun_at_cong)
    from 6(8) v1 h1 pos1 b1 6(1) sh(2)
    consider (ok) "fst ?r = OK" "\<forall>k. Suc i \<le> k \<longrightarrow> \<not> underrun_at icc jd1 k"
      | (stop) k where "fst ?r = Failed IccUnderrun" "stops_at icc jd1 (Suc i) ?r k"
      by auto
    then show "(fst ?r = OK \<and> (\<forall>k. i \<le> k \<longrightarrow> \<not> underrun_at icc jd k)) \<or>
      (fst ?r = Failed IccUnderrun \<and> (\<exists>k. stops_at icc jd i ?r k))"
    proof cases
      case ok
      have "\<not> underrun_at icc jd k" if "i \<le> k" for k
        using that ok(2) nu unfolding un by (cases "k = i") auto
      with ok(1) show ?thesis
        by simp
    next
      case stop
      have k: "Suc i \<le> k"
        using stop(2) by (simp add: stops_at_def)
      have same: "app_data jd1 ! l = app_data jd ! l" if "k \<le> l" for l
        using that k by (intro sh(4)) simp
      have "stops_at icc jd (Suc i) ?r k"
        using stop(2) same unfolding stops_at_def un off(2) by simp
      then have "stops_at icc jd i ?r k"
        using nu by (rule stops_at_skip)
      with stop(1) show ?thesis
        by blast
    qed
  qed
qed

text \<open>The predicates of the statement, unfolded.\<close>

lemma underrun_iff: "underrun icc jd \<longleftrightarrow> (\<exists>k. underrun_at icc jd k)"
proof
  assume "underrun icc jd"
  then show "\<exists>k. underrun_at icc jd k"
    unfolding underrun_def list_ex_iff by blast
next
  assume "\<exists>k. underrun_at icc jd k"
  then obtain k where k: "underrun_at icc jd k" ..
  then have "k < length (app_data jd)"
    by (simp add: underrun_at_def)
  with k show "underrun icc jd"
    unfolding underrun_def list_ex_iff by auto
qed

lemma first_underrun_iff:
  "first_underrun icc jd k \<longleftrightarrow> underrun_at icc jd k \<and> (\<forall>l < k. \<not> underrun_at icc jd l)"
  unfolding first_underrun_def list_ex_iff by auto

lemma icc_offset_mono: "a \<le> b \<Longrightarrow> icc_offset jd a \<le> icc_offset jd b"
proof (induction b)
  case 0
  then show ?case by simp
next
  case (Suc b)
  show ?case
  proof (cases "a = Suc b")
    case True
    then show ?thesis by simp
  next
    case False
    with Suc.prems have "a \<le> b" by simp
    then have "icc_offset jd a \<le> icc_offset jd b" by (rule Suc.IH)
    then show ?thesis by simp
  qed
qed

lemma underrun_at_final:
  assumes "underrun_at icc jd k"
  shows "length icc < final_offset jd"
proof -
  from assms have k: "k < length (app_data jd)"
    and l: "length icc < icc_offset jd (Suc k)"
    by (simp_all add: underrun_at_def)
  from k have "Suc k \<le> length (app_data jd)"
    by simp
  then have "icc_offset jd (Suc k) \<le> final_offset jd"
    unfolding final_offset_def by (rule icc_offset_mono)
  with l show ?thesis
    by simp
qed

text \<open>
  Where the check of line 133 is exact.  Take a legacy payload in which every range
  has its tag and every range tagged \<open>kICC\<close> is longer than its 17 bytes of header,
  and vectors of at most \<open>PTRDIFF_MAX\<close> bytes.  The redistribution fails with the
  underrun error exactly when some ICC range would require more profile bytes than
  remain (\<open>underrun\<close>); the range at which it stops is then left as it was, the
  check coming before the copy.  It fails with the overrun error exactly when no
  range ran short, so that all ranges were processed, and the final offset is
  neither zero nor the length of the profile.  It succeeds in every other case; a
  final offset of zero is a success, whatever the length of the profile.  No other
  failure and no access outside a buffer occurs.
\<close>

lemma status_on_payload_ranges:
  assumes v: "vector_sizes_ok icc jd" and h: "icc_markers_hold_payload jd"
  shows "(fst (set_icc_in_jpeg_data icc (Some jd)) = Failed IccUnderrun \<longleftrightarrow> underrun icc jd) \<and>
         (fst (set_icc_in_jpeg_data icc (Some jd)) = Failed IccOverrun \<longleftrightarrow>
            \<not> underrun icc jd \<and> final_offset jd \<noteq> 0 \<and> final_offset jd \<noteq> length icc) \<and>
         (fst (set_icc_in_jpeg_data icc (Some jd)) = OK \<longleftrightarrow>
            \<not> underrun icc jd \<and> (final_offset jd = 0 \<or> final_offset jd = length icc)) \<and>
         (final_offset jd = 0 \<longrightarrow> fst (set_icc_in_jpeg_data icc (Some jd)) = OK) \<and>
         (\<forall>k. first_underrun icc jd k \<longrightarrow>
            map_option (\<lambda>jd'. app_data jd' ! k) (snd (set_icc_in_jpeg_data icc (Some jd)))
              = Some (app_data jd ! k))"
proof -
  let ?r = "icc_loop icc jd 0 0"
  let ?s = "set_icc_in_jpeg_data icc (Some jd)"
  from icc_loop_well_formed [of icc jd 0 0] v h
  consider (ok) "fst ?r = OK" "\<forall>k. \<not> underrun_at icc jd k"
    | (stop) k where "fst ?r = Failed IccUnderrun" "stops_at icc jd 0 ?r k"
    by auto
  then show ?thesis
  proof cases
    case ok
    have nu: "\<not> underrun icc jd"
      using ok(2) by (simp add: underrun_iff)
    have pos: "snd (snd ?r) = final_offset jd"
      using icc_loop_success [of icc jd 0 0] v ok(1) by (simp add: final_offset_def)
    have st: "fst ?s = (if final_offset jd \<noteq> length icc \<and> final_offset jd \<noteq> 0
                        then Failed IccOverrun else OK)"
      by (simp add: set_icc_in_jpeg_data_Some ok(1) pos)
    have "\<not> first_underrun icc jd k" for k
      using ok(2) by (simp add: first_underrun_iff)
    with nu st show ?thesis
      by auto
  next
    case stop
    have u: "underrun icc jd"
      using stop(2) unfolding underrun_iff stops_at_def by blast
    have st: "fst ?s = Failed IccUnderrun"
      by (simp add: set_icc_in_jpeg_data_Some stop(1))
    have "underrun_at icc jd k"
      using stop(2) by (simp add: stops_at_def)
    then have "length icc < final_offset jd"
      by (rule underrun_at_final)
    then have nz: "final_offset jd \<noteq> 0"
      by simp
    have same: "app_data (fst (snd ?r)) ! l = app_data jd ! l" if "first_underrun icc jd l" for l
    proof -
      from that have l: "underrun_at icc jd l" "\<And>m. m < l \<Longrightarrow> \<not> underrun_at icc jd m"
        by (simp_all add: first_underrun_iff)
      from stop(2) have k: "underrun_at icc jd k" "\<And>m. m < k \<Longrightarrow> \<not> underrun_at icc jd m"
        and keep: "\<And>m. k \<le> m \<Longrightarrow> app_data (fst (snd ?r)) ! m = app_data jd ! m"
        by (simp_all add: stops_at_def)
      have "\<not> l < k"
        using l(1) k(2) by blast
      then show ?thesis
        by (intro keep) simp
    qed
    have "map_option (\<lambda>jd'. app_data jd' ! l) (snd ?s) = Some (app_data jd ! l)"
      if "first_underrun icc jd l" for l
      using same [OF that] by (simp add: set_icc_in_jpeg_data_Some)
    with u st nz show ?thesis
      by simp
  qed
qed

text \<open>
  A profile of two bytes over two ICC ranges with one and two bytes after the
  header: the second of them, range 2, asks for a byte more than remains.
\<close>

lemma status_on_payload_ranges_example:
  "vector_sizes_ok [1, 2]
     \<lparr>app_data = [hdr17 @ [9], [7, 7], hdr17 @ [9, 9]],
      app_marker_type = [kICC, kOtherMarker 1, kICC]\<rparr> \<and>
   icc_markers_hold_payload
     \<lparr>app_data = [hdr17 @ [9], [7, 7], hdr17 @ [9, 9]],
      app_marker_type = [kICC, kOtherMarker 1, kICC]\<rparr> \<and>
   first_underrun [1, 2]
     \<lparr>app_data = [hdr17 @ [9], [7, 7], hdr17 @ [9, 9]],
      app_marker_type = [kICC, kOtherMarker 1, kICC]\<rparr> 2 \<and>
   fst (set_icc_in_jpeg_data [1, 2]
     (Some \<lparr>app_data = [hdr17 @ [9], [7, 7], hdr17 @ [9, 9]],
            app_marker_type = [kICC, kOtherMarker 1, kICC]\<rparr>)) = Failed IccUnderrun \<and>
   map_option (\<lambda>jd'. app_data jd' ! 2) (snd (set_icc_in_jpeg_data [1, 2]
     (Some \<lparr>app_data = [hdr17 @ [9], [7, 7], hdr17 @ [9, 9]],
            app_marker_type = [kICC, kOtherMarker 1, kICC]\<rparr>))) = Some (hdr17 @ [9, 9])"
proof -
  let ?jd = "\<lparr>app_data = [hdr17 @ [9], [7, 7], hdr17 @ [9, 9 :: byte]],
              app_marker_type = [kICC, kOtherMarker 1, kICC]\<rparr>"
  have v: "vector_sizes_ok [1, 2] ?jd"
    by (simp add: vector_sizes_ok_def PTRDIFF_MAX_def hdr17_def)
  have h: "icc_markers_hold_payload ?jd"
    by (simp add: icc_markers_hold_payload_def hdr17_def)
  have at: "underrun_at [1, 2] ?jd 2"
    by (simp add: underrun_at_def slice_len_def eval_nat_numeral hdr17_def)
  have no: "\<not> underrun_at [1, 2] ?jd l" if "l < 2" for l
  proof -
    from that have "l = 0 \<or> l = 1"
      by auto
    then show ?thesis
      by (auto simp: underrun_at_def slice_len_def hdr17_def)
  qed
  have f: "first_underrun [1, 2] ?jd 2"
    using at no by (simp add: first_underrun_iff)
  have u: "underrun [1, 2] ?jd"
    using at unfolding underrun_iff ..
  note t = status_on_payload_ranges [OF v h]
  have st: "fst (set_icc_in_jpeg_data [1, 2] (Some ?jd)) = Failed IccUnderrun"
    using t u by (elim conjE) (rule iffD2)
  have "\<forall>k. first_underrun [1, 2] ?jd k \<longrightarrow>
          map_option (\<lambda>jd'. app_data jd' ! k) (snd (set_icc_in_jpeg_data [1, 2] (Some ?jd)))
            = Some (app_data ?jd ! k)"
    using t by (elim conjE)
  with f have "map_option (\<lambda>jd'. app_data jd' ! 2) (snd (set_icc_in_jpeg_data [1, 2] (Some ?jd)))
            = Some (app_data ?jd ! 2)"
    by (elim allE impE)
  then have keep: "map_option (\<lambda>jd'. app_data jd' ! 2) (snd (set_icc_in_jpeg_data [1, 2] (Some ?jd)))
            = Some (hdr17 @ [9, 9])"
    by simp
  from v h f st keep show ?thesis
    by (intro conjI)
qed

text \<open>
  The other outcomes on small inputs: a profile of three bytes of which the only
  ICC range takes one is an overrun, after the range has been written; a profile
  of which no range takes a byte is a success; and without reconstruction data
  nothing is done.
\<close>

lemma overrun_example:
  "set_icc_in_jpeg_data [1, 2, 3]
     (Some \<lparr>app_data = [hdr17 @ [9]], app_marker_type = [kICC]\<rparr>)
   = (Failed IccOverrun, Some \<lparr>app_data = [hdr17 @ [1]], app_marker_type = [kICC]\<rparr>)"
  by (simp add: set_icc_in_jpeg_data_def icc_loop.simps memcpy_def size_sub_def
      size_add_def SIZE_RANGE_def hdr17_def)

lemma unconsumed_profile_example:
  "set_icc_in_jpeg_data [1, 2, 3]
     (Some \<lparr>app_data = [[7, 7]], app_marker_type = [kOtherMarker 1]\<rparr>)
   = (OK, Some \<lparr>app_data = [[7, 7]], app_marker_type = [kOtherMarker 1]\<rparr>)"
  by (simp add: set_icc_in_jpeg_data_def icc_loop.simps)

lemma no_jpeg_data_example: "set_icc_in_jpeg_data icc None = (OK, None)"
  by (simp add: set_icc_in_jpeg_data_def)

subsection \<open>An ICC range without payload\<close>

text \<open>
  \<open>DecodeFile\<close> does not check that a range tagged \<open>kICC\<close> is longer than the 17 bytes
  of its header.  The loop never ends with success over a range that is not: every
  range it has copied into has an element 17.
\<close>

lemma icc_loop_success_payload:
  "fst (icc_loop icc jd i pos) = OK \<longrightarrow>
     (\<forall>k. i \<le> k \<and> k < length (app_data jd) \<and> app_marker_type jd ! k = kICC \<longrightarrow>
        17 < length (app_data jd ! k))"
proof (rule icc_loop_rule
    [where Q = "\<lambda>jd i pos r. fst r = OK \<longrightarrow>
       (\<forall>k. i \<le> k \<and> k < length (app_data jd) \<and> app_marker_type jd ! k = kICC \<longrightarrow>
          17 < length (app_data jd ! k))"], goal_cases)
  case (1 jd i pos)
  then show ?case
    by simp
next
  case (2 jd i pos)
  then show ?case
    by simp
next
  case (3 jd i pos)
  show ?case
  proof (intro impI allI)
    fix k
    assume ok: "fst (icc_loop icc jd (Suc i) pos) = OK"
      and k: "i \<le> k \<and> k < length (app_data jd) \<and> app_marker_type jd ! k = kICC"
    with 3(3) have "k \<noteq> i"
      by auto
    with k have "Suc i \<le> k \<and> k < length (app_data jd) \<and> app_marker_type jd ! k = kICC"
      by simp
    with 3(4) ok show "17 < length (app_data jd ! k)"
      by blast
  qed
next
  case (4 jd i pos len)
  then show ?case
    by simp
next
  case (5 jd i pos len)
  then show ?case
    by simp
next
  case (6 jd i pos len d jd1)
  show ?case
  proof (intro impI allI)
    fix k
    assume ok: "fst (icc_loop icc jd1 (Suc i) (size_add pos len)) = OK"
      and k: "i \<le> k \<and> k < length (app_data jd) \<and> app_marker_type jd ! k = kICC"
    have ld: "length d = length (app_data jd ! i)"
      using 6(6) by (rule memcpy_length)
    note sh = update_keeps_shape [OF 6(1) ld 6(7)]
    show "17 < length (app_data jd ! k)"
    proof (cases "k = i")
      case True
      show ?thesis
        unfolding True using 6(6) by (rule memcpy_SomeD(4))
    next
      case False
      with k have "Suc i \<le> k \<and> k < length (app_data jd1) \<and> app_marker_type jd1 ! k = kICC"
        unfolding sh(1) sh(2) by simp
      with 6(8) ok have "17 < length (app_data jd1 ! k)"
        by blast
      then show ?thesis
        unfolding sh(3) .
    qed
  qed
qed

lemma icc_marker_without_payload_no_success:
  assumes k: "k < length (app_data jd)"
    and t: "app_marker_type jd ! k = kICC" and s: "length (app_data jd ! k) \<le> 17"
  shows "fst (set_icc_in_jpeg_data icc (Some jd)) \<noteq> OK"
proof
  assume "fst (set_icc_in_jpeg_data icc (Some jd)) = OK"
  then have "fst (icc_loop icc jd 0 0) = OK"
    by (simp add: set_icc_in_jpeg_data_Some split: Status.splits)
  then have "17 < length (app_data jd ! k)"
    using icc_loop_success_payload [of icc jd 0 0] k t by simp
  with s show False
    by simp
qed

text \<open>
  A range of the 17 bytes of the header alone takes no profile byte, and
  \<open>&app_data[i][17]\<close> is past its last element.  A range of 16 bytes alone makes
  \<open>size() - 17\<close> wrap around, and line 133 reports an underrun for a range that
  requires no byte.
\<close>

lemma header_only_icc_marker:
  "set_icc_in_jpeg_data [1, 2, 3] (Some \<lparr>app_data = [hdr17], app_marker_type = [kICC]\<rparr>)
   = (Failed OutOfBounds, Some \<lparr>app_data = [hdr17], app_marker_type = [kICC]\<rparr>)"
  by (simp add: set_icc_in_jpeg_data_def icc_loop.simps memcpy_def size_sub_def
      size_add_def SIZE_RANGE_def hdr17_def)

lemma short_icc_marker_underrun:
  "set_icc_in_jpeg_data [1, 2, 3]
     (Some \<lparr>app_data = [butlast hdr17], app_marker_type = [kICC]\<rparr>)
   = (Failed IccUnderrun, Some \<lparr>app_data = [butlast hdr17], app_marker_type = [kICC]\<rparr>) \<and>
   \<not> underrun [1, 2, 3] \<lparr>app_data = [butlast hdr17], app_marker_type = [kICC]\<rparr>"
proof -
  let ?jd = "\<lparr>app_data = [butlast hdr17 :: byte list], app_marker_type = [kICC]\<rparr>"
  have r: "set_icc_in_jpeg_data [1, 2, 3] (Some ?jd) = (Failed IccUnderrun, Some ?jd)"
    by (simp add: set_icc_in_jpeg_data_def icc_loop.simps memcpy_def size_sub_def
        size_add_def SIZE_RANGE_def hdr17_def)
  have "\<not> underrun_at [1, 2, 3] ?jd k" for k
    by (simp add: underrun_at_def slice_len_def hdr17_def)
  then have n: "\<not> underrun [1, 2, 3] ?jd"
    by (simp add: underrun_iff)
  from r n show ?thesis
    by (intro conjI)
qed

section \<open>Properties of the frame loop\<close>

subsection \<open>One decode and the inner loop\<close>

text \<open>
  A decode overwrites the last entry and nothing else; when it succeeds the entry
  records the header it left.
\<close>

lemma DecodeFrame_SomeD:
  assumes "DecodeFrame decode ds io = Some (ok, ds', io')"
  shows "frames io \<noteq> []"
    and "length (frames io') = length (frames io)"
    and "butlast (frames io') = butlast (frames io)"
    and "dec_pixels io' = dec_pixels io"
    and "ok \<Longrightarrow> decoded_as (last (frames io')) = Some (frame_header ds')"
    and "frames io' \<noteq> []"
proof -
  show ne: "frames io \<noteq> []"
    using assms by (auto simp: DecodeFrame_def split: if_splits)
  obtain ok1 ds1 b where d: "decode ds (image_bundle (last (frames io))) = (ok1, ds1, b)"
    by (cases "decode ds (image_bundle (last (frames io)))") auto
  from assms ne have ok: "ok1 = ok" and ds: "ds1 = ds'"
    and io': "io' = io\<lparr>frames := butlast (frames io) @
        [\<lparr>image_bundle = b,
          decoded_as = (if ok then Some (frame_header ds') else decoded_as (last (frames io)))\<rparr>]\<rparr>"
    by (auto simp: DecodeFrame_def d)
  show "length (frames io') = length (frames io)"
    using ne by (simp add: io')
  show "butlast (frames io') = butlast (frames io)"
    by (simp add: io')
  show "dec_pixels io' = dec_pixels io"
    by (simp add: io')
  show "ok \<Longrightarrow> decoded_as (last (frames io')) = Some (frame_header ds')"
    by (simp add: io')
  show "frames io' \<noteq> []"
    by (simp add: io')
qed

lemma DecodeFrame_None: "DecodeFrame decode ds io = None \<longleftrightarrow> frames io = []"
  by (auto simp: DecodeFrame_def split: prod.splits)

text \<open>
  The inner loop: whatever the number of decodes, the list keeps its length and
  its entries before the last; the status is \<open>OK\<close> or that of a failed decode, and
  with \<open>OK\<close> the last entry is of a displayed type.
\<close>

lemma skip_undisplayed_result:
  assumes "skip_undisplayed fuel decode ds io = Some (st, ds', io')" and "frames io \<noteq> []"
  shows "length (frames io') = length (frames io) \<and>
         butlast (frames io') = butlast (frames io) \<and>
         dec_pixels io' = dec_pixels io \<and>
         (st = OK \<or> st = Failed FrameDecodeFailure) \<and>
         (st = OK \<longrightarrow> decoded_as (last (frames io')) = Some (frame_header ds') \<and>
            displayed (last (frames io')))"
  using assms
proof (induction fuel arbitrary: ds io)
  case 0
  then show ?case
    by simp
next
  case (Suc fuel)
  from Suc.prems(2) obtain ok ds1 io1 where d: "DecodeFrame decode ds io = Some (ok, ds1, io1)"
    using DecodeFrame_None [of decode ds io] by (cases "DecodeFrame decode ds io") auto
  note f = DecodeFrame_SomeD [OF d]
  show ?case
  proof (cases ok)
    case False
    with Suc.prems(1) d have "st = Failed FrameDecodeFailure" and "io' = io1"
      by simp_all
    with f show ?thesis
      by simp
  next
    case True
    show ?thesis
    proof (cases "frame_type (frame_header ds1) \<noteq> kRegularFrame \<and>
                  frame_type (frame_header ds1) \<noteq> kSkipProgressive")
      case again: True
      with Suc.prems(1) d True
      have "skip_undisplayed fuel decode ds1 io1 = Some (st, ds', io')"
        by simp
      from Suc.IH [OF this f(6)] show ?thesis
        using f(2) f(3) f(4) by simp
    next
      case False
      with Suc.prems(1) d True have r: "st = OK" "ds' = ds1" "io' = io1"
        by simp_all
      have "decoded_as (last (frames io1)) = Some (frame_header ds1)"
        using True by (rule f(5))
      moreover from this False have "displayed (last (frames io1))"
        by (auto simp: displayed_def)
      ultimately show ?thesis
        using f(2) f(3) f(4) by (simp add: r)
    qed
  qed
qed

subsection \<open>The outer loop\<close>

text \<open>One iteration of the outer loop, with the appended entry written out.\<close>

lemma frame_loop_Suc:
  "frame_loop (Suc fuel) decode ds jpeg io =
     (case skip_undisplayed (Suc fuel) decode ds (io\<lparr>frames := frames io @ [appended_entry jpeg]\<rparr>) of
        None \<Rightarrow> None
      | Some (Failed e, ds', io3) \<Rightarrow> Some (Failed e, io3)
      | Some (OK, ds', io3) \<Rightarrow>
          if \<not> is_last (frame_header ds')
          then frame_loop fuel decode ds' None
                 (io3\<lparr>dec_pixels :=
                    size_add (dec_pixels io3)
                      (size_mul (xsize (image_bundle (last (frames io3))))
                                (ysize (image_bundle (last (frames io3)))))\<rparr>)
          else Some (OK, io3\<lparr>dec_pixels :=
                    size_add (dec_pixels io3)
                      (size_mul (xsize (image_bundle (last (frames io3))))
                                (ysize (image_bundle (last (frames io3)))))\<rparr>))"
  by (cases jpeg)
    (simp_all add: appended_entry_def Let_def del: skip_undisplayed.simps
       split: option.split prod.split Status.split)

text \<open>
  The invariant of the outer loop: it appends at least one entry; every entry it
  appends but the last is of a displayed type, and with \<open>OK\<close> the last is too.
\<close>

lemma frame_loop_result:
  assumes "frame_loop fuel decode ds jpeg io = Some (st, io')"
  shows "\<exists>new. frames io' = frames io @ new \<and> new \<noteq> [] \<and>
           list_all displayed (butlast new) \<and>
           (st = OK \<longrightarrow> displayed (last new)) \<and>
           (st = OK \<or> st = Failed FrameDecodeFailure)"
  using assms
proof (induction fuel arbitrary: ds jpeg io)
  case 0
  then show ?case
    by simp
next
  case (Suc fuel)
  let ?io2 = "io\<lparr>frames := frames io @ [appended_entry jpeg]\<rparr>"
  from Suc.prems obtain st3 ds3 io3
    where inner: "skip_undisplayed (Suc fuel) decode ds ?io2 = Some (st3, ds3, io3)"
    unfolding frame_loop_Suc
    by (cases "skip_undisplayed (Suc fuel) decode ds ?io2") (auto simp del: skip_undisplayed.simps)
  have ne: "frames ?io2 \<noteq> []"
    by simp
  note r = skip_undisplayed_result [OF inner ne]
  have "frames io3 \<noteq> []"
    using r by auto
  then have "frames io3 = butlast (frames io3) @ [last (frames io3)]"
    by simp
  then have "frames io3 = frames io @ [last (frames io3)]"
    using r by simp
  then obtain l where fr: "frames io3 = frames io @ [l]" and l: "last (frames io3) = l"
    by simp
  let ?io4 = "io3\<lparr>dec_pixels :=
                    size_add (dec_pixels io3)
                      (size_mul (xsize (image_bundle (last (frames io3))))
                                (ysize (image_bundle (last (frames io3)))))\<rparr>"
  show ?case
  proof (cases st3)
    case (Failed e)
    with Suc.prems inner have "st = Failed e" and "io' = io3"
      unfolding frame_loop_Suc by (simp_all del: skip_undisplayed.simps)
    moreover have "e = FrameDecodeFailure"
      using r Failed by simp
    ultimately show ?thesis
      using fr by (intro exI [of _ "[l]"]) simp
  next
    case OK
    then have disp: "displayed l"
      using r l by simp
    show ?thesis
    proof (cases "is_last (frame_header ds3)")
      case True
      with Suc.prems inner OK have "st = OK" and "io' = ?io4"
        unfolding frame_loop_Suc by (simp_all del: skip_undisplayed.simps)
      then show ?thesis
        using fr disp by (intro exI [of _ "[l]"]) simp
    next
      case False
      with Suc.prems inner OK have "frame_loop fuel decode ds3 None ?io4 = Some (st, io')"
        unfolding frame_loop_Suc by (simp del: skip_undisplayed.simps)
      from Suc.IH [OF this] obtain new
        where n: "frames io' = frames ?io4 @ new" "new \<noteq> []" "list_all displayed (butlast new)"
          "st = OK \<longrightarrow> displayed (last new)" "st = OK \<or> st = Failed FrameDecodeFailure"
        by blast
      have "frames io' = frames io @ (l # new)"
        using n(1) fr by simp
      moreover have "list_all displayed (butlast (l # new))"
        using n(2) n(3) disp by simp
      moreover have "st = OK \<longrightarrow> displayed (last (l # new))"
        using n(2) n(4) by simp
      ultimately show ?thesis
        using n(5) by (intro exI [of _ "l # new"]) simp
    qed
  qed
qed

lemma skip_undisplayed_again:
  assumes "DecodeFrame decode ds io = Some (True, ds1, io1)"
    and "frame_type (frame_header ds1) \<noteq> kRegularFrame"
    and "frame_type (frame_header ds1) \<noteq> kSkipProgressive"
  shows "skip_undisplayed (Suc fuel) decode ds io = skip_undisplayed fuel decode ds1 io1"
  using assms by simp

lemma DecodeFrames_result:
  assumes "DecodeFrames fuel decode ds jpeg io = Some (st, io')"
  shows "frames io' \<noteq> []" and "list_all displayed (butlast (frames io'))"
    and "st = OK \<Longrightarrow> list_all displayed (frames io')"
    and "st = OK \<or> st = Failed FrameDecodeFailure"
proof -
  from assms have "frame_loop fuel decode ds jpeg (io\<lparr>frames := []\<rparr>) = Some (st, io')"
    by (simp add: DecodeFrames_def)
  from frame_loop_result [OF this] obtain new
    where n: "frames io' = new" "new \<noteq> []" "list_all displayed (butlast new)"
      "st = OK \<longrightarrow> displayed (last new)" "st = OK \<or> st = Failed FrameDecodeFailure"
    by auto
  show "frames io' \<noteq> []" and "list_all displayed (butlast (frames io'))"
    and "st = OK \<or> st = Failed FrameDecodeFailure"
    using n by simp_all
  show "list_all displayed (frames io')" if "st = OK"
  proof -
    have "list_all displayed (butlast new @ [last new])"
      using n(3) n(4) that by simp
    then have "list_all displayed new"
      using n(2) by simp
    then show ?thesis
      by (simp add: n(1))
  qed
qed

text \<open>
  Claim C3.  In an iteration of the frame loop, when a frame decode has succeeded
  and left a frame type that is neither \<open>kRegularFrame\<close> nor \<open>kSkipProgressive\<close>, the
  inner loop goes on with the decoder state and the frame list as that decode left
  them, and the decode has overwritten the last entry: the list has the length it
  had and the same entries before the last.  So the inner loop as a whole leaves
  the length of the list and the entries before the last as they were, and when it
  ends with success the last entry is of a displayed type.  Hence, when the frame
  loop returns, the frame list is not empty and every entry before the last is of
  a displayed type; when it returns with success, so is the last.
\<close>

theorem frame_list_displayed_only:
  "(DecodeFrame decode ds io = Some (True, ds_a, io_a) \<and>
    frame_type (frame_header ds_a) \<noteq> kRegularFrame \<and>
    frame_type (frame_header ds_a) \<noteq> kSkipProgressive \<longrightarrow>
      skip_undisplayed (Suc fuel) decode ds io = skip_undisplayed fuel decode ds_a io_a \<and>
      length (frames io_a) = length (frames io) \<and>
      butlast (frames io_a) = butlast (frames io)) \<and>
   (skip_undisplayed fuel decode ds io = Some (st, ds_b, io_b) \<and> frames io \<noteq> [] \<longrightarrow>
      length (frames io_b) = length (frames io) \<and>
      butlast (frames io_b) = butlast (frames io) \<and>
      (st = OK \<longrightarrow> displayed (last (frames io_b)))) \<and>
   (DecodeFrames fuel decode ds jpeg io = Some (st_c, io_c) \<longrightarrow>
      frames io_c \<noteq> [] \<and>
      list_all displayed (butlast (frames io_c)) \<and>
      (st_c = OK \<longrightarrow> list_all displayed (frames io_c)))"
proof (intro conjI impI)
  assume a: "DecodeFrame decode ds io = Some (True, ds_a, io_a) \<and>
    frame_type (frame_header ds_a) \<noteq> kRegularFrame \<and>
    frame_type (frame_header ds_a) \<noteq> kSkipProgressive"
  then show "skip_undisplayed (Suc fuel) decode ds io = skip_undisplayed fuel decode ds_a io_a"
    by (intro skip_undisplayed_again) simp_all
  from a have d: "DecodeFrame decode ds io = Some (True, ds_a, io_a)"
    by simp
  show "length (frames io_a) = length (frames io)"
    using d by (rule DecodeFrame_SomeD(2))
  show "butlast (frames io_a) = butlast (frames io)"
    using d by (rule DecodeFrame_SomeD(3))
next
  assume a: "skip_undisplayed fuel decode ds io = Some (st, ds_b, io_b) \<and> frames io \<noteq> []"
  then have r: "skip_undisplayed fuel decode ds io = Some (st, ds_b, io_b)" and ne: "frames io \<noteq> []"
    by simp_all
  note s = skip_undisplayed_result [OF r ne]
  show "length (frames io_b) = length (frames io)"
    and "butlast (frames io_b) = butlast (frames io)"
    using s by simp_all
  show "displayed (last (frames io_b))" if "st = OK"
    using s that by simp
next
  assume a: "DecodeFrames fuel decode ds jpeg io = Some (st_c, io_c)"
  show "frames io_c \<noteq> []"
    using a by (rule DecodeFrames_result(1))
  show "list_all displayed (butlast (frames io_c))"
    using a by (rule DecodeFrames_result(2))
  show "list_all displayed (frames io_c)" if "st_c = OK"
    using a that by (rule DecodeFrames_result(3))
qed

text \<open>
  The stream of four frames: the first decode leaves a frame that is not
  displayed, the inner loop overwrites it with the regular frame, and the frame
  loop ends with the two displayed frames.
\<close>

lemma DecodeFrame_stream4:
  "DecodeFrame scripted_decoder stream4 one_new_frame =
     Some (True, \<lparr>frame_header = h_ref, rest = [h_reg, h_dc, h_skip]\<rparr>,
           \<lparr>frames = [decoded 3 h_ref], dec_pixels = 0\<rparr>)"
  by (simp add: DecodeFrame_def scripted_decoder_def stream4_def one_new_frame_def
      appended_entry_def new_ImageBundle_def decoded_def)

lemma skip_undisplayed_stream4:
  "skip_undisplayed (Suc (Suc (Suc 0))) scripted_decoder stream4 one_new_frame =
     Some (OK, \<lparr>frame_header = h_reg, rest = [h_dc, h_skip]\<rparr>,
           \<lparr>frames = [decoded 2 h_reg], dec_pixels = 0\<rparr>)"
  by (simp add: DecodeFrame_def scripted_decoder_def stream4_def one_new_frame_def
      appended_entry_def new_ImageBundle_def decoded_def h_ref_def h_reg_def)

lemma DecodeFrames_stream4:
  "DecodeFrames (Suc (Suc (Suc 0))) scripted_decoder stream4 None one_new_frame =
     Some (OK, \<lparr>frames = [decoded 2 h_reg, decoded 0 h_skip], dec_pixels = 2\<rparr>)"
  by (simp add: DecodeFrames_def DecodeFrame_def scripted_decoder_def stream4_def
      one_new_frame_def appended_entry_def new_ImageBundle_def decoded_def
      h_ref_def h_reg_def h_dc_def h_skip_def size_add_def size_mul_def SIZE_RANGE_def Let_def)

theorem frame_list_displayed_only_witness:
  "DecodeFrame scripted_decoder stream4 one_new_frame =
     Some (True, \<lparr>frame_header = h_ref, rest = [h_reg, h_dc, h_skip]\<rparr>,
           \<lparr>frames = [decoded 3 h_ref], dec_pixels = 0\<rparr>) \<and>
   frame_type h_ref \<noteq> kRegularFrame \<and> frame_type h_ref \<noteq> kSkipProgressive \<and>
   skip_undisplayed (Suc (Suc (Suc 0))) scripted_decoder stream4 one_new_frame =
     Some (OK, \<lparr>frame_header = h_reg, rest = [h_dc, h_skip]\<rparr>,
           \<lparr>frames = [decoded 2 h_reg], dec_pixels = 0\<rparr>) \<and>
   frames one_new_frame \<noteq> [] \<and>
   DecodeFrames (Suc (Suc (Suc 0))) scripted_decoder stream4 None one_new_frame =
     Some (OK, \<lparr>frames = [decoded 2 h_reg, decoded 0 h_skip], dec_pixels = 2\<rparr>) \<and>
   skip_undisplayed (Suc (Suc (Suc (Suc 0)))) scripted_decoder stream4 one_new_frame =
     skip_undisplayed (Suc (Suc (Suc 0))) scripted_decoder
       \<lparr>frame_header = h_ref, rest = [h_reg, h_dc, h_skip]\<rparr>
       \<lparr>frames = [decoded 3 h_ref], dec_pixels = 0\<rparr> \<and>
   displayed (decoded 2 h_reg) \<and>
   list_all displayed [decoded 2 h_reg, decoded 0 h_skip]"
proof -
  let ?ds1 = "\<lparr>frame_header = h_ref, rest = [h_reg, h_dc, h_skip]\<rparr>"
  let ?io1 = "\<lparr>frames = [decoded 3 h_ref], dec_pixels = 0\<rparr>"
  let ?ds2 = "\<lparr>frame_header = h_reg, rest = [h_dc, h_skip]\<rparr>"
  let ?io2 = "\<lparr>frames = [decoded 2 h_reg], dec_pixels = 0\<rparr>"
  let ?io3 = "\<lparr>frames = [decoded 2 h_reg, decoded 0 h_skip], dec_pixels = 2\<rparr>"
  have t1: "frame_type h_ref \<noteq> kRegularFrame" and t2: "frame_type h_ref \<noteq> kSkipProgressive"
    by (simp_all add: h_ref_def)
  have ne: "frames one_new_frame \<noteq> []"
    by (simp add: one_new_frame_def)
  note t = frame_list_displayed_only
    [where decode = scripted_decoder and ds = stream4 and io = one_new_frame
       and ds_a = ?ds1 and io_a = ?io1 and fuel = "Suc (Suc (Suc 0))" and st = OK
       and ds_b = ?ds2 and io_b = ?io2 and jpeg = None and st_c = OK and io_c = ?io3]
  have a: "skip_undisplayed (Suc (Suc (Suc (Suc 0)))) scripted_decoder stream4 one_new_frame =
     skip_undisplayed (Suc (Suc (Suc 0))) scripted_decoder ?ds1 ?io1"
    using t [THEN conjunct1] DecodeFrame_stream4 t1 t2 by simp
  have "displayed (last (frames ?io2))"
    using t [THEN conjunct2, THEN conjunct1] skip_undisplayed_stream4 ne by simp
  then have b: "displayed (decoded 2 h_reg)"
    by simp
  have "list_all displayed (frames ?io3)"
    using t [THEN conjunct2, THEN conjunct2] DecodeFrames_stream4 by simp
  then have c: "list_all displayed [decoded 2 h_reg, decoded 0 h_skip]"
    by simp
  from DecodeFrame_stream4 t1 t2 skip_undisplayed_stream4 ne DecodeFrames_stream4 a b c
  show ?thesis
    by (intro conjI)
qed

subsection \<open>A failed frame decode\<close>

text \<open>
  When \<open>DecodeFrame\<close> fails, line 172 returns at once and \<open>io->frames\<close> keeps the
  entry of the iteration at hand, as the failed decode left it: the last entry of
  the list need not be of a displayed type.  In the stream that ends after a frame
  that is not displayed, the second decode fails and the entry written by the
  first stays in the list.
\<close>

theorem frame_list_displayed_only_counterexample:
  "DecodeFrames (Suc (Suc (Suc 0))) scripted_decoder stream1 None one_new_frame =
     Some (Failed FrameDecodeFailure, \<lparr>frames = [decoded 0 h_ref], dec_pixels = 0\<rparr>) \<and>
   frame_type h_ref \<noteq> kRegularFrame \<and>
   frame_type h_ref \<noteq> kSkipProgressive \<and>
   \<not> list_all displayed [decoded 0 h_ref]"
proof -
  have r: "DecodeFrames (Suc (Suc (Suc 0))) scripted_decoder stream1 None one_new_frame =
     Some (Failed FrameDecodeFailure, \<lparr>frames = [decoded 0 h_ref], dec_pixels = 0\<rparr>)"
    by (simp add: DecodeFrames_def DecodeFrame_def scripted_decoder_def stream1_def
        one_new_frame_def appended_entry_def new_ImageBundle_def decoded_def h_ref_def Let_def)
  have t: "frame_type h_ref \<noteq> kRegularFrame" "frame_type h_ref \<noteq> kSkipProgressive"
    by (simp_all add: h_ref_def)
  have n: "\<not> list_all displayed [decoded 0 h_ref]"
    by (simp add: displayed_def decoded_def h_ref_def)
  from r t n show ?thesis
    by (intro conjI)
qed

subsection \<open>The fuel and the ghost field\<close>

text \<open>A run that returns within some fuel returns the same with more.\<close>

lemma skip_undisplayed_more_fuel:
  assumes "skip_undisplayed fuel decode ds io = Some r"
  shows "skip_undisplayed (fuel + extra) decode ds io = Some r"
  using assms
proof (induction fuel arbitrary: ds io)
  case 0
  then show ?case
    by simp
next
  case (Suc fuel)
  show ?case
  proof (cases "DecodeFrame decode ds io")
    case None
    with Suc.prems show ?thesis
      by simp
  next
    case (Some t)
    obtain ok ds1 io1 where t: "t = (ok, ds1, io1)"
      by (cases t) auto
    show ?thesis
    proof (cases "ok \<and> frame_type (frame_header ds1) \<noteq> kRegularFrame \<and>
                  frame_type (frame_header ds1) \<noteq> kSkipProgressive")
      case True
      with Suc.prems Some t have "skip_undisplayed fuel decode ds1 io1 = Some r"
        by simp
      then have "skip_undisplayed (fuel + extra) decode ds1 io1 = Some r"
        by (rule Suc.IH)
      with True Some t show ?thesis
        by simp
    next
      case False
      with Suc.prems Some t show ?thesis
        by (cases ok) auto
    qed
  qed
qed

lemma frame_loop_more_fuel:
  assumes "frame_loop fuel decode ds jpeg io = Some r"
  shows "frame_loop (fuel + extra) decode ds jpeg io = Some r"
  using assms
proof (induction fuel arbitrary: ds jpeg io)
  case 0
  then show ?case
    by simp
next
  case (Suc fuel)
  let ?io2 = "io\<lparr>frames := frames io @ [appended_entry jpeg]\<rparr>"
  from Suc.prems obtain st3 ds3 io3
    where inner: "skip_undisplayed (Suc fuel) decode ds ?io2 = Some (st3, ds3, io3)"
    unfolding frame_loop_Suc
    by (cases "skip_undisplayed (Suc fuel) decode ds ?io2") (auto simp del: skip_undisplayed.simps)
  have inner': "skip_undisplayed (Suc (fuel + extra)) decode ds ?io2 = Some (st3, ds3, io3)"
    using skip_undisplayed_more_fuel [OF inner, of extra] by simp
  let ?io4 = "io3\<lparr>dec_pixels :=
                    size_add (dec_pixels io3)
                      (size_mul (xsize (image_bundle (last (frames io3))))
                                (ysize (image_bundle (last (frames io3)))))\<rparr>"
  have s: "Suc fuel + extra = Suc (fuel + extra)"
    by simp
  show ?case
  proof (cases st3)
    case (Failed e)
    with Suc.prems inner inner' show ?thesis
      unfolding s frame_loop_Suc by (simp del: skip_undisplayed.simps)
  next
    case OK
    show ?thesis
    proof (cases "is_last (frame_header ds3)")
      case True
      with Suc.prems inner inner' OK show ?thesis
        unfolding s frame_loop_Suc by (simp del: skip_undisplayed.simps)
    next
      case False
      with Suc.prems inner OK have "frame_loop fuel decode ds3 None ?io4 = Some r"
        unfolding frame_loop_Suc by (simp del: skip_undisplayed.simps)
      then have "frame_loop (fuel + extra) decode ds3 None ?io4 = Some r"
        by (rule Suc.IH)
      with False inner' OK show ?thesis
        unfolding s frame_loop_Suc by (simp del: skip_undisplayed.simps)
    qed
  qed
qed

lemma DecodeFrames_more_fuel:
  "DecodeFrames fuel decode ds jpeg io = Some r \<Longrightarrow>
   DecodeFrames (fuel + extra) decode ds jpeg io = Some r"
  unfolding DecodeFrames_def by (rule frame_loop_more_fuel)

text \<open>
  The ghost field has no part in a run: from two frame lists that agree on the
  bundles, the loops come to the same status and decoder state, and to frame lists
  that agree on the bundles.
\<close>

lemma same_bundlesD:
  assumes "same_bundles a b"
  shows "frames a = [] \<longleftrightarrow> frames b = []"
    and "frames a \<noteq> [] \<Longrightarrow> image_bundle (last (frames a)) = image_bundle (last (frames b))"
    and "map image_bundle (butlast (frames a)) = map image_bundle (butlast (frames b))"
    and "dec_pixels a = dec_pixels b"
proof -
  from assms have m: "map image_bundle (frames a) = map image_bundle (frames b)"
    and p: "dec_pixels a = dec_pixels b"
    by (simp_all add: same_bundles_def)
  show e: "frames a = [] \<longleftrightarrow> frames b = []"
    using m by (metis map_is_Nil_conv)
  show "dec_pixels a = dec_pixels b"
    by (rule p)
  show "map image_bundle (butlast (frames a)) = map image_bundle (butlast (frames b))"
    using m by (simp add: map_butlast)
  show "image_bundle (last (frames a)) = image_bundle (last (frames b))" if "frames a \<noteq> []"
  proof -
    from that e have "frames b \<noteq> []"
      by simp
    with that m show ?thesis
      by (metis last_map)
  qed
qed

lemma DecodeFrame_ghost:
  assumes s: "same_bundles io io'"
  shows "case (DecodeFrame decode ds io, DecodeFrame decode ds io') of
           (None, None) \<Rightarrow> True
         | (Some (ok, ds1, a), Some (ok', ds1', b)) \<Rightarrow> ok = ok' \<and> ds1 = ds1' \<and> same_bundles a b
         | _ \<Rightarrow> False"
proof (cases "frames io = []")
  case True
  with same_bundlesD(1) [OF s] show ?thesis
    by (simp add: DecodeFrame_def)
next
  case False
  with same_bundlesD(1) [OF s] have ne: "frames io' \<noteq> []"
    by simp
  note l = same_bundlesD(2) [OF s False]
  obtain ok ds1 b where d: "decode ds (image_bundle (last (frames io'))) = (ok, ds1, b)"
    by (cases "decode ds (image_bundle (last (frames io')))") auto
  show ?thesis
    using False ne same_bundlesD(3) [OF s] same_bundlesD(4) [OF s]
    by (simp add: DecodeFrame_def l d same_bundles_def)
qed

lemma skip_undisplayed_ghost:
  assumes "same_bundles io io'"
  shows "same_run (skip_undisplayed fuel decode ds io) (skip_undisplayed fuel decode ds io')"
  using assms
proof (induction fuel arbitrary: ds io io')
  case 0
  show ?case
    by (simp add: same_run_def)
next
  case (Suc fuel)
  note g = DecodeFrame_ghost [OF Suc.prems, of decode ds]
  show ?case
  proof (cases "DecodeFrame decode ds io")
    case None
    with g have "DecodeFrame decode ds io' = None"
      by (cases "DecodeFrame decode ds io'") simp_all
    with None Suc.prems show ?thesis
      by (simp add: same_run_def)
  next
    case (Some t)
    obtain ok ds1 a where t: "t = (ok, ds1, a)"
      by (cases t) auto
    from g Some t obtain b where d': "DecodeFrame decode ds io' = Some (ok, ds1, b)"
      and ab: "same_bundles a b"
      by (cases "DecodeFrame decode ds io'") auto
    show ?thesis
    proof (cases "ok \<and> frame_type (frame_header ds1) \<noteq> kRegularFrame \<and>
                  frame_type (frame_header ds1) \<noteq> kSkipProgressive")
      case True
      have "same_run (skip_undisplayed fuel decode ds1 a) (skip_undisplayed fuel decode ds1 b)"
        using ab by (rule Suc.IH)
      with True Some t d' show ?thesis
        by simp
    next
      case False
      with Some t d' ab show ?thesis
        by (cases ok) (auto simp: same_run_def)
    qed
  qed
qed

lemma frame_loop_ghost:
  assumes "same_bundles io io'"
  shows "same_result (frame_loop fuel decode ds jpeg io) (frame_loop fuel decode ds jpeg io')"
  using assms
proof (induction fuel arbitrary: ds jpeg io io')
  case 0
  show ?case
    by (simp add: same_result_def)
next
  case (Suc fuel)
  let ?a = "io\<lparr>frames := frames io @ [appended_entry jpeg]\<rparr>"
  let ?b = "io'\<lparr>frames := frames io' @ [appended_entry jpeg]\<rparr>"
  have "same_bundles ?a ?b"
    using Suc.prems by (simp add: same_bundles_def)
  then have run: "same_run (skip_undisplayed (Suc fuel) decode ds ?a)
                    (skip_undisplayed (Suc fuel) decode ds ?b)"
    by (rule skip_undisplayed_ghost)
  show ?case
  proof (cases "skip_undisplayed (Suc fuel) decode ds ?a")
    case None
    with run have "skip_undisplayed (Suc fuel) decode ds ?b = None"
      by (cases "skip_undisplayed (Suc fuel) decode ds ?b") (simp_all add: same_run_def)
    with None show ?thesis
      unfolding frame_loop_Suc by (simp add: same_result_def del: skip_undisplayed.simps)
  next
    case (Some t)
    obtain st ds3 a3 where t: "t = (st, ds3, a3)"
      by (cases t) auto
    from run Some t obtain b3
      where b: "skip_undisplayed (Suc fuel) decode ds ?b = Some (st, ds3, b3)"
        and ab: "same_bundles a3 b3"
      by (cases "skip_undisplayed (Suc fuel) decode ds ?b") (auto simp: same_run_def)
    let ?a4 = "a3\<lparr>dec_pixels :=
                    size_add (dec_pixels a3)
                      (size_mul (xsize (image_bundle (last (frames a3))))
                                (ysize (image_bundle (last (frames a3)))))\<rparr>"
    let ?b4 = "b3\<lparr>dec_pixels :=
                    size_add (dec_pixels b3)
                      (size_mul (xsize (image_bundle (last (frames b3))))
                                (ysize (image_bundle (last (frames b3)))))\<rparr>"
    show ?thesis
    proof (cases st)
      case (Failed e)
      with Some t b ab show ?thesis
        unfolding frame_loop_Suc by (simp add: same_result_def del: skip_undisplayed.simps)
    next
      case OK
      have "frames a3 \<noteq> []"
        using skip_undisplayed_result [of "Suc fuel" decode ds ?a st ds3 a3] Some t by auto
      then have "image_bundle (last (frames a3)) = image_bundle (last (frames b3))"
        by (rule same_bundlesD(2) [OF ab])
      then have ab4: "same_bundles ?a4 ?b4"
        using ab by (simp add: same_bundles_def)
      show ?thesis
      proof (cases "is_last (frame_header ds3)")
        case True
        with Some t b OK ab4 show ?thesis
          unfolding frame_loop_Suc by (simp add: same_result_def del: skip_undisplayed.simps)
      next
        case False
        have "same_result (frame_loop fuel decode ds3 None ?a4) (frame_loop fuel decode ds3 None ?b4)"
          using ab4 by (rule Suc.IH)
        with False Some t b OK show ?thesis
          unfolding frame_loop_Suc by (simp del: skip_undisplayed.simps)
      qed
    qed
  qed
qed

lemma DecodeFrames_ghost:
  assumes "same_bundles io io'"
  shows "same_result (DecodeFrames fuel decode ds jpeg io) (DecodeFrames fuel decode ds jpeg io')"
  unfolding DecodeFrames_def
  using assms by (intro frame_loop_ghost) (simp add: same_bundles_def)


end
